theory Spec2Isabelle
  imports Main "HOL-Library.Word" "HOL-Library.Sublist"
begin

section \<open>JavaScript strings\<close>

text \<open>
  A JavaScript string is a sequence of UTF-16 code units; \<open>length\<close>, \<open>slice\<close>,
  \<open>split\<close>, \<open>startsWith\<close> and \<open>trim\<close> all work on code units. ASCII literals of
  the source are written \<open>js ''...''\<close>.
\<close>

type_synonym jschar = "16 word"
type_synonym jstring = "jschar list"

definition js :: "string \<Rightarrow> jstring" where
  "js s = map of_char s"

definition nl :: jschar where
  "nl = 0xA"

text \<open>
  \<open>String.prototype.trim\<close> removes WhiteSpace and LineTerminator code units from both
  ends: TAB, LF, VT, FF, CR, SP, NBSP, U+1680, U+2000..U+200A, U+2028, U+2029, U+202F,
  U+205F, U+3000 and U+FEFF.
\<close>

definition is_ws :: "jschar \<Rightarrow> bool" where
  "is_ws c =
     (c \<in> {0x9, 0xA, 0xB, 0xC, 0xD, 0x20, 0xA0, 0x1680, 0x2028, 0x2029, 0x202F, 0x205F,
            0x3000, 0xFEFF}
      \<or> (0x2000 \<le> c \<and> c \<le> 0x200A))"

definition trim :: "jstring \<Rightarrow> jstring" where
  "trim s = rev (dropWhile is_ws (rev (dropWhile is_ws s)))"

definition startsWith :: "jstring \<Rightarrow> jstring \<Rightarrow> bool" where
  "startsWith s p = (take (length p) s = p)"

text \<open>
  \<open>s.split("\n")\<close>: the pieces between line feeds; the result is never empty, the
  empty string gives one empty piece, and a trailing line feed gives a last empty piece.
\<close>

fun split_nl :: "jstring \<Rightarrow> jstring list" where
  "split_nl [] = [[]]"
| "split_nl (c # cs) =
     (if c = nl then [] # split_nl cs
      else (case split_nl cs of [] \<Rightarrow> [[c]] | l # ls \<Rightarrow> (c # l) # ls))"

text \<open>\<open>pieces.join("\n")\<close>, the inverse of \<open>split\<close>.\<close>

fun join_nl :: "jstring list \<Rightarrow> jstring" where
  "join_nl [] = []"
| "join_nl [l] = l"
| "join_nl (l # ls) = l @ nl # join_nl ls"

section \<open>SSEParser\<close>

record SSEParser =
  buffer :: jstring

definition new_SSEParser :: SSEParser where
  "new_SSEParser = \<lparr>buffer = []\<rparr>"

definition data_prefix :: jstring where
  "data_prefix = js ''data: ''"

definition done_sentinel :: jstring where
  "done_sentinel = js ''[DONE]''"

text \<open>The body of the \<open>for (const line of lines)\<close> loop of \<open>parse\<close>.\<close>

definition parse_line :: "jstring list \<Rightarrow> jstring \<Rightarrow> jstring list" where
  "parse_line results line =
     (if startsWith line data_prefix then
        (let data = trim (drop 6 line)
         in if data \<noteq> [] \<and> data \<noteq> done_sentinel then results @ [data] else results)
      else results)"

fun parse_loop :: "jstring list \<Rightarrow> jstring list \<Rightarrow> jstring list" where
  "parse_loop results [] = results"
| "parse_loop results (line # lines) = parse_loop (parse_line results line) lines"

text \<open>
  \<open>parse(chunk)\<close>: \<open>lines.pop() || ""\<close> takes the last piece off (the empty string
  if there were none) and the loop runs over the remaining pieces.
\<close>

definition parse :: "SSEParser \<Rightarrow> jstring \<Rightarrow> jstring list \<times> SSEParser" where
  "parse p chunk =
     (let buf = buffer p @ chunk;
          lines = split_nl buf;
          popped = (if lines = [] then [] else last lines);
          lines' = butlast lines
      in (parse_loop [] lines', p\<lparr>buffer := popped\<rparr>))"

definition final :: "SSEParser \<Rightarrow> jstring list" where
  "final p =
     (if trim (buffer p) \<noteq> [] then
        (let data = trim (buffer p)
         in if startsWith data data_prefix then
              (let content = trim (drop 6 data)
               in if content \<noteq> [] \<and> content \<noteq> done_sentinel then [content] else [])
            else [])
      else [])"

text \<open>Feeding the chunks of a stream in order, then flushing.\<close>

fun feed_all :: "SSEParser \<Rightarrow> jstring list \<Rightarrow> jstring list \<times> SSEParser" where
  "feed_all p [] = ([], p)"
| "feed_all p (chunk # chunks) =
     (case parse p chunk of (rs, p') \<Rightarrow>
        (case feed_all p' chunks of (rs', p'') \<Rightarrow> (rs @ rs', p'')))"

definition demux :: "jstring list \<Rightarrow> jstring list" where
  "demux chunks = (case feed_all new_SSEParser chunks of (rs, p) \<Rightarrow> rs @ final p)"

text \<open>
  The rule of the specification for one line: a line that carries the event-data prefix
  gives its payload, the prefix stripped and the rest trimmed, unless the payload is
  empty or the terminator sentinel; any other line gives nothing.
\<close>

definition frame_of_line :: "jstring \<Rightarrow> jstring option" where
  "frame_of_line line =
     (if startsWith line data_prefix then
        (let payload = trim (drop (length data_prefix) line)
         in if payload = [] \<or> payload = done_sentinel then None else Some payload)
      else None)"

section \<open>Errors\<close>

text \<open>
  What a \<open>catch (error)\<close> of the source can see of the value thrown: whether
  \<open>axios.isCancel\<close> recognises it, its \<open>name\<close> and its \<open>code\<close> (absent on a plain
  \<open>Error\<close> or \<open>TypeError\<close>).
\<close>

record thrown =
  isCancel :: bool
  name :: jstring
  code :: "jstring option"

definition TypeError :: thrown where
  "TypeError = \<lparr>isCancel = False, name = js ''TypeError'', code = None\<rparr>"

definition plain_Error :: thrown where
  "plain_Error = \<lparr>isCancel = False, name = js ''Error'', code = None\<rparr>"

section \<open>getLmStudioModels\<close>

text \<open>
  The body of the models listing is read as \<open>response.data?.data?.map((model) => model.id)\<close>.
  The payload is untyped in the source; the model gives it the shapes that decide the
  control flow: \<open>response.data\<close> absent (null or undefined) or present; its \<open>data\<close>
  field absent, present without a \<open>map\<close> method (anything but an array, so the call
  raises a TypeError), or an array; an entry of the array null (so \<open>model.id\<close> raises
  a TypeError) or an object with an \<open>id\<close>.
\<close>

datatype model_entry = NullEntry | Entry jstring

datatype listing = NoList | NotArray | Models "model_entry list"

record models_response =
  response_data :: "listing option"

text \<open>The callback \<open>(model) => model.id\<close> mapped over the array; a throw ends the map.\<close>

fun map_ids :: "model_entry list \<Rightarrow> thrown + jstring list" where
  "map_ids [] = Inr []"
| "map_ids (NullEntry # ms) = Inl TypeError"
| "map_ids (Entry i # ms) = (case map_ids ms of Inl e \<Rightarrow> Inl e | Inr ids \<Rightarrow> Inr (i # ids))"

text \<open>\<open>[...new Set(xs)]\<close>: the elements in the order of their first insertion.\<close>

definition Set_add :: "'a list \<Rightarrow> 'a \<Rightarrow> 'a list" where
  "Set_add acc x = (if x \<in> set acc then acc else acc @ [x])"

definition new_Set :: "'a list \<Rightarrow> 'a list" where
  "new_Set xs = foldl Set_add [] xs"

definition default_baseUrl :: jstring where
  "default_baseUrl = js ''http://localhost:1234''"

text \<open>
  The \<open>try\<close> block. \<open>URL.canParse\<close> and \<open>axios.get\<close> belong to the platform and are
  parameters; \<open>axios.get\<close> either throws or gives a response.
\<close>

definition getLmStudioModels_try ::
  "(jstring \<Rightarrow> bool) \<Rightarrow> (jstring \<Rightarrow> thrown + models_response) \<Rightarrow> jstring \<Rightarrow> thrown + jstring list"
where
  "getLmStudioModels_try canParse axios_get baseUrl =
     (if \<not> canParse baseUrl then Inr []
      else
        (case axios_get (baseUrl @ js ''/v1/models'') of
           Inl e \<Rightarrow> Inl e
         | Inr response \<Rightarrow>
             (case (case response_data response of
                      None \<Rightarrow> Inr None
                    | Some NoList \<Rightarrow> Inr None
                    | Some NotArray \<Rightarrow> Inl TypeError
                    | Some (Models ms) \<Rightarrow> map_sum id Some (map_ids ms)) of
                Inl e \<Rightarrow> Inl e
              | Inr mapped \<Rightarrow>
                  (let modelsArray = (case mapped of None \<Rightarrow> [] | Some ids \<Rightarrow> ids)
                   in Inr (new_Set modelsArray)))))"

text \<open>
  The function with its \<open>catch (error) { return [] }\<close>; the argument is optional and
  defaults to \<open>http://localhost:1234\<close>. \<open>Inl\<close> would be an error reaching the caller.
\<close>

definition getLmStudioModels ::
  "(jstring \<Rightarrow> bool) \<Rightarrow> (jstring \<Rightarrow> thrown + models_response) \<Rightarrow> jstring option
     \<Rightarrow> thrown + jstring list"
where
  "getLmStudioModels canParse axios_get arg =
     (let baseUrl = (case arg of None \<Rightarrow> default_baseUrl | Some u \<Rightarrow> u)
      in case getLmStudioModels_try canParse axios_get baseUrl of
           Inl error \<Rightarrow> Inr []
         | Inr ids \<Rightarrow> Inr ids)"

section \<open>XmlMatcher\<close>

text \<open>
  Modelled from the spec: \<open>XmlMatcher\<close> (\<open>src/utils/xml-matcher\<close>) is imported by the
  handler but is not among the sources. This is the tag-delimited content classifier of
  the specification: it scans the text for the opening and the closing tag of the
  configured name; a proper prefix of the tag it is waiting for is held back
  (\<open>cached\<close>) until the next characters decide whether it is the tag or ordinary text;
  everything from an opening tag to the matching closing tag is given with
  \<open>matched = True\<close>, everything else with \<open>matched = False\<close>; no character is dropped.
  \<open>final\<close> gives what is held back, classified by the state last confirmed.
\<close>

definition lt :: jschar where
  "lt = 0x3C"

definition open_tag :: "jstring \<Rightarrow> jstring" where
  "open_tag tg = lt # tg @ js ''>''"

definition close_tag :: "jstring \<Rightarrow> jstring" where
  "close_tag tg = lt # js ''/'' @ tg @ js ''>''"

text \<open>
  Modelled from the spec: the state of \<open>XmlMatcher\<close> (not among the sources): the
  configured tag name, the state last confirmed (inside a reasoning span or not) and the
  partial tag held back.
\<close>

record XmlMatcher =
  tagName :: jstring
  matched :: bool
  cached :: jstring

text \<open>One result of the matcher, \<open>{matched, data}\<close>.\<close>

type_synonym XmlMatcherResult = "bool \<times> jstring"

definition new_XmlMatcher :: "jstring \<Rightarrow> XmlMatcher" where
  "new_XmlMatcher tg = \<lparr>tagName = tg, matched = False, cached = []\<rparr>"

definition awaited :: "XmlMatcher \<Rightarrow> jstring" where
  "awaited m = (if matched m then close_tag (tagName m) else open_tag (tagName m))"

text \<open>Text of one kind joins the last result when that has the same kind.\<close>

definition collect :: "XmlMatcherResult list \<Rightarrow> bool \<Rightarrow> jstring \<Rightarrow> XmlMatcherResult list" where
  "collect chunks k d =
     (if d = [] then chunks
      else if chunks \<noteq> [] \<and> fst (last chunks) = k
        then butlast chunks @ [(k, snd (last chunks) @ d)]
      else chunks @ [(k, d)])"

text \<open>
  Modelled from the spec: the step of \<open>XmlMatcher.update\<close> (not among the sources) for
  one character. The character completes the awaited tag, which then joins the
  reasoning span and switches the state; or it extends the partial tag, which stays held
  back; or it shows that what was held back is ordinary text of the present kind, and
  is itself the start of a new partial tag or ordinary text.
\<close>

definition xm_char ::
  "XmlMatcherResult list \<times> XmlMatcher \<Rightarrow> jschar \<Rightarrow> XmlMatcherResult list \<times> XmlMatcher"
where
  "xm_char s c =
     (case s of (chunks, m) \<Rightarrow>
        (let cand = cached m @ [c]; target = awaited m
         in if cand = target then
              (collect chunks True cand, m\<lparr>matched := \<not> matched m, cached := []\<rparr>)
            else if prefix cand target then (chunks, m\<lparr>cached := cand\<rparr>)
            else
              (let chunks' = collect chunks (matched m) (cached m)
               in if prefix [c] target then (chunks', m\<lparr>cached := [c]\<rparr>)
                  else (collect chunks' (matched m) [c], m\<lparr>cached := []\<rparr>))))"

text \<open>
  Modelled from the spec: \<open>XmlMatcher.update\<close> (not among the sources) gives the
  segments decided by the characters of the delta, in order.
\<close>

definition xm_update :: "XmlMatcher \<Rightarrow> jstring \<Rightarrow> XmlMatcherResult list \<times> XmlMatcher" where
  "xm_update m delta = foldl xm_char ([], m) delta"

text \<open>
  Modelled from the spec: \<open>XmlMatcher.final\<close> (not among the sources) gives the text
  held back, with the kind of the state last confirmed.
\<close>

definition xm_final :: "XmlMatcher \<Rightarrow> XmlMatcherResult list" where
  "xm_final m = collect [] (matched m) (cached m)"

text \<open>All results of \<open>update\<close> on each delta in turn, then those of \<open>final\<close>.\<close>

fun xm_run :: "XmlMatcher \<Rightarrow> jstring list \<Rightarrow> XmlMatcherResult list" where
  "xm_run m [] = xm_final m"
| "xm_run m (d # ds) = (case xm_update m d of (chunks, m') \<Rightarrow> chunks @ xm_run m' ds)"

text \<open>
  The classification the specification asks for, on the whole text at once: for every
  character, whether it lies in a reasoning span (from an opening tag to the next
  closing tag, or to the end of the text when the span is not closed).
\<close>

function reasoning_mask :: "jstring \<Rightarrow> bool \<Rightarrow> jstring \<Rightarrow> bool list" where
  "reasoning_mask tg ins [] = []"
| "reasoning_mask tg ins (c # s) =
     (let target = (if ins then close_tag tg else open_tag tg)
      in if prefix target (c # s)
         then replicate (length target) True
                @ reasoning_mask tg (\<not> ins) (drop (length target) (c # s))
         else ins # reasoning_mask tg ins s)"
  by pat_completeness auto
termination
  by (relation "measure (\<lambda>(tg, ins, s). length s)") (auto simp: open_tag_def close_tag_def)

subsection \<open>Notions for the proofs about the matcher\<close>

text \<open>The results of the matcher, character by character, each with its kind.\<close>

definition flat :: "XmlMatcherResult list \<Rightarrow> (bool \<times> jschar) list" where
  "flat chunks = concat (map (\<lambda>(k, d). map (Pair k) d) chunks)"


text \<open>The tag awaited outside (\<open>False\<close>) and inside (\<open>True\<close>) a reasoning span.\<close>

definition tag :: "jstring \<Rightarrow> bool \<Rightarrow> jstring" where
  "tag tg ins = (if ins then close_tag tg else open_tag tg)"

text \<open>
  What is still to come out of a matcher when the text \<open>s\<close> remains to be read, and the
  invariant of its state: the tag name has no \<open><\<close> and the text held back is a proper
  prefix of the awaited tag.
\<close>

definition rest_out :: "XmlMatcher \<Rightarrow> jstring \<Rightarrow> (bool \<times> jschar) list" where
  "rest_out m s = zip (reasoning_mask (tagName m) (matched m) (cached m @ s)) (cached m @ s)"

definition good :: "XmlMatcher \<Rightarrow> bool" where
  "good m = (lt \<notin> set (tagName m) \<and> strict_prefix (cached m) (tag (tagName m) (matched m)))"

section \<open>The output events\<close>

text \<open>
  Modelled from the spec: the type \<open>ApiStream\<close> of the chunks the handler yields, and
  the type of the end events that \<open>NativeToolCallParser.processFinishReason\<close> returns,
  are not among the sources. The events are those the handler builds: text, reasoning,
  a partial tool call (\<open>index\<close>, \<open>id\<close>, \<open>name\<close>, \<open>arguments\<close>) and the usage totals
  (\<open>inputTokens\<close>, \<open>outputTokens\<close>); and the ToolCallEnd event of the specification,
  one per tool call index.
\<close>

datatype event =
    Text jstring
  | Reasoning jstring
  | ToolCallPartial nat "jstring option" "jstring option" "jstring option"
  | ToolCallEnd nat
  | Usage nat nat

text \<open>The transform given to the matcher at its construction.\<close>

definition transform :: "XmlMatcherResult \<Rightarrow> event" where
  "transform chunk = (if fst chunk then Reasoning (snd chunk) else Text (snd chunk))"

fun event_text :: "event \<Rightarrow> jstring" where
  "event_text (Text t) = t"
| "event_text (Reasoning t) = t"
| "event_text _ = []"

fun event_kinds :: "event \<Rightarrow> bool list" where
  "event_kinds (Text t) = replicate (length t) False"
| "event_kinds (Reasoning t) = replicate (length t) True"
| "event_kinds _ = []"

fun is_usage :: "event \<Rightarrow> bool" where
  "is_usage (Usage i o') = True"
| "is_usage _ = False"

fun is_tool_event :: "event \<Rightarrow> bool" where
  "is_tool_event (ToolCallPartial i d n a) = True"
| "is_tool_event (ToolCallEnd i) = True"
| "is_tool_event _ = False"

section \<open>createMessage\<close>

subsection \<open>The prompt\<close>

text \<open>
  A message's content is a string or an array of parts, of which only the text parts
  count; a content block is \<open>{type: "text", text}\<close> and is represented by its text.
\<close>

datatype content_part = TextPart jstring | OtherPart

datatype message_content = StringContent jstring | ArrayContent "content_part list"

record MessageParam =
  role :: jstring
  msg_content :: message_content

fun push_text_parts :: "jstring list \<Rightarrow> content_part list \<Rightarrow> jstring list" where
  "push_text_parts result [] = result"
| "push_text_parts result (TextPart t # parts) = push_text_parts (result @ [t]) parts"
| "push_text_parts result (OtherPart # parts) = push_text_parts result parts"

fun push_messages :: "jstring list \<Rightarrow> MessageParam list \<Rightarrow> jstring list" where
  "push_messages result [] = result"
| "push_messages result (msg # msgs) =
     push_messages
       (case msg_content msg of
          StringContent t \<Rightarrow> result @ [t]
        | ArrayContent parts \<Rightarrow> push_text_parts result parts)
       msgs"

datatype blocks_arg = Messages "MessageParam list" | PlainString jstring

fun toContentBlocks :: "blocks_arg \<Rightarrow> jstring list" where
  "toContentBlocks (PlainString t) = [t]"
| "toContentBlocks (Messages msgs) = push_messages [] msgs"

subsection \<open>The payload of a frame\<close>

text \<open>
  Modelled from the spec: the parsed payload is untyped (\<open>any\<close>) in the source. It is
  given the shape of the EventFrame of the specification, which is the shape the source
  reads: \<open>choices?.[0]?.delta\<close> with an optional \<open>content\<close> and optional
  \<open>tool_calls\<close> (each with \<open>index\<close>, \<open>id\<close>, \<open>function?.name\<close>,
  \<open>function?.arguments\<close>), and \<open>choices?.[0]?.finish_reason\<close>. Every level the
  source guards with \<open>?.\<close> or tests for truth is optional.
\<close>

record tool_function =
  fn_name :: "jstring option"
  fn_arguments :: "jstring option"

record tool_call_delta =
  tc_index :: nat
  tc_id :: "jstring option"
  tc_function :: "tool_function option"

record delta =
  delta_content :: "jstring option"
  delta_tool_calls :: "tool_call_delta list option"

record choice =
  choice_delta :: "delta option"
  finish_reason :: "jstring option"

record completion_chunk =
  choices :: "choice list option"

definition first_choice :: "completion_chunk \<Rightarrow> choice option" where
  "first_choice parsed =
     (case choices parsed of None \<Rightarrow> None | Some [] \<Rightarrow> None | Some (c # cs) \<Rightarrow> Some c)"

text \<open>\<open>parsed.choices?.[0]?.delta\<close> and \<open>parsed.choices?.[0]?.finish_reason\<close>.\<close>

definition get_delta :: "completion_chunk \<Rightarrow> delta option" where
  "get_delta parsed = Option.bind (first_choice parsed) choice_delta"

definition get_finish_reason :: "completion_chunk \<Rightarrow> jstring option" where
  "get_finish_reason parsed = Option.bind (first_choice parsed) finish_reason"

subsection \<open>The environment and the state of a run\<close>

text \<open>
  What the handler calls and does not define: \<open>countTokens\<close> of the base provider,
  which may throw; \<open>JSON.parse\<close> followed by the reading of the payload, \<open>None\<close> when
  that throws (a payload that throws after some of its events were yielded, such as one
  whose \<open>tool_calls\<close> is not iterable, has no place in the typed payload and is
  outside the model); \<open>NativeToolCallParser.processFinishReason\<close>, a static method
  whose result depends on the tool calls the consumer has told the parser of, here on the
  events yielded so far; and the matcher, with any state of its own. The claims about
  \<open>createMessage\<close> are proved for every such environment.
\<close>

record 'm env =
  countTokens :: "jstring list \<Rightarrow> thrown + nat"
  JSON_parse :: "jstring \<Rightarrow> completion_chunk option"
  processFinishReason :: "event list \<Rightarrow> jstring \<Rightarrow> nat list"
  newMatcher :: 'm
  matcherUpdate :: "'m \<Rightarrow> jstring \<Rightarrow> XmlMatcherResult list \<times> 'm"
  matcherFinal :: "'m \<Rightarrow> XmlMatcherResult list"

text \<open>The calls of \<open>console.error\<close>.\<close>

datatype log_entry =
    FailedCountInput thrown
  | FailedParse jstring
  | FailedCountOutput thrown
  | StreamError thrown

record 'm run =
  sseParser :: SSEParser
  matcher :: 'm
  assistantText :: jstring
  yielded :: "event list"
  logged :: "log_entry list"

definition yield :: "'m run \<Rightarrow> event list \<Rightarrow> 'm run" where
  "yield st evs = st\<lparr>yielded := yielded st @ evs\<rparr>"

text \<open>
  How the transport answers: the request throws, the response has no body, or the body
  delivers chunks (already decoded to strings) and then ends or throws.
\<close>

datatype ending = End | Throw thrown

datatype response = RequestFailed thrown | NoStream | Stream "jstring list" ending

text \<open>
  The abort signal is set once and stays set, and the handler reads it in three places
  only: before it processes a chunk, after the loop, and in the \<open>catch\<close> block. The
  check made when \<open>i\<close> chunks have been delivered is check \<open>i\<close>. \<open>Some k\<close>: check
  \<open>k\<close> is the first that can see the signal set, so \<open>abort()\<close> was called at some
  moment after check \<open>k - 1\<close>, perhaps while an event of chunk \<open>k - 1\<close> was being
  yielded; when \<open>k\<close> is greater than the number of chunks delivered, \<open>abort()\<close> comes
  after the last check, during the final flush or later. \<open>None\<close>: \<open>abort()\<close> is
  never called on the controller of this request.
\<close>

definition aborted :: "nat option \<Rightarrow> nat \<Rightarrow> bool" where
  "aborted ab i = (case ab of None \<Rightarrow> False | Some k \<Rightarrow> k \<le> i)"

datatype failure = TimedOut | CheckLogs

datatype status = Completed | Stopped | Failed failure

subsection \<open>The streaming phase\<close>

text \<open>\<open>if (delta?.content) { assistantText += ...; yield* matcher.update(...) }\<close>\<close>

definition on_content :: "'m env \<Rightarrow> 'm run \<Rightarrow> delta option \<Rightarrow> 'm run" where
  "on_content env st d =
     (case Option.bind d delta_content of
        None \<Rightarrow> st
      | Some text \<Rightarrow>
          if text = [] then st
          else
            (case matcherUpdate env (matcher st) text of
               (chunks, m') \<Rightarrow>
                 yield (st\<lparr>assistantText := assistantText st @ text, matcher := m'\<rparr>)
                   (map transform chunks)))"

definition partial_of :: "tool_call_delta \<Rightarrow> event" where
  "partial_of toolCall =
     ToolCallPartial (tc_index toolCall) (tc_id toolCall)
       (Option.bind (tc_function toolCall) fn_name)
       (Option.bind (tc_function toolCall) fn_arguments)"

definition on_tool_calls :: "'m run \<Rightarrow> delta option \<Rightarrow> 'm run" where
  "on_tool_calls st d =
     (case Option.bind d delta_tool_calls of
        None \<Rightarrow> st
      | Some tool_calls \<Rightarrow> yield st (map partial_of tool_calls))"

definition on_finish_reason :: "'m env \<Rightarrow> 'm run \<Rightarrow> jstring option \<Rightarrow> 'm run" where
  "on_finish_reason env st finishReason =
     (case finishReason of
        None \<Rightarrow> st
      | Some reason \<Rightarrow>
          if reason = [] then st
          else yield st (map ToolCallEnd (processFinishReason env (yielded st) reason)))"

text \<open>The \<open>try\<close>/\<open>catch\<close> run for one payload while the stream is read.\<close>

definition process_data :: "'m env \<Rightarrow> 'm run \<Rightarrow> jstring \<Rightarrow> 'm run" where
  "process_data env st payload =
     (case JSON_parse env payload of
        None \<Rightarrow> st\<lparr>logged := logged st @ [FailedParse payload]\<rparr>
      | Some parsed \<Rightarrow>
          (let d = get_delta parsed;
               finishReason = get_finish_reason parsed;
               st1 = on_content env st d;
               st2 = on_tool_calls st1 d
           in on_finish_reason env st2 finishReason))"

text \<open>The body of the \<open>for await\<close> loop after the check of the abort signal.\<close>

definition on_chunk :: "'m env \<Rightarrow> 'm run \<Rightarrow> jstring \<Rightarrow> 'm run" where
  "on_chunk env st chunk =
     (case parse (sseParser st) chunk of
        (dataChunks, p') \<Rightarrow> foldl (process_data env) (st\<lparr>sseParser := p'\<rparr>) dataChunks)"

text \<open>
  The \<open>for await\<close> loop; \<open>i\<close> counts the chunks delivered before this one. The result
  says whether the loop was left by \<open>break\<close>.
\<close>

fun stream_loop :: "'m env \<Rightarrow> nat option \<Rightarrow> nat \<Rightarrow> 'm run \<Rightarrow> jstring list \<Rightarrow> bool \<times> 'm run" where
  "stream_loop env ab i st [] = (False, st)"
| "stream_loop env ab i st (chunk # chunks) =
     (if aborted ab i then (True, st)
      else stream_loop env ab (Suc i) (on_chunk env st chunk) chunks)"

subsection \<open>After the stream\<close>

text \<open>The \<open>try\<close>/\<open>catch\<close> run for one payload of the final buffer.\<close>

definition process_final_data :: "'m env \<Rightarrow> 'm run \<Rightarrow> jstring \<Rightarrow> 'm run" where
  "process_final_data env st payload =
     (case JSON_parse env payload of
        None \<Rightarrow> st
      | Some parsed \<Rightarrow> on_content env st (get_delta parsed))"

text \<open>The final buffer is processed and the matcher flushed.\<close>

definition flush :: "'m env \<Rightarrow> 'm run \<Rightarrow> 'm run" where
  "flush env st =
     (let finalChunks = final (sseParser st);
          st1 = foldl (process_final_data env) st finalChunks
      in yield st1 (map transform (matcherFinal env (matcher st1))))"

text \<open>The branch taken when the loop has ended and the abort signal is not set.\<close>

definition complete :: "'m env \<Rightarrow> nat \<Rightarrow> 'm run \<Rightarrow> status \<times> 'm run" where
  "complete env inputTokens st =
     (let st2 = flush env st;
          counted = countTokens env [assistantText st2];
          outputTokens = (case counted of Inl err \<Rightarrow> 0 | Inr n \<Rightarrow> n);
          st3 = (case counted of
                   Inl err \<Rightarrow> st2\<lparr>logged := logged st2 @ [FailedCountOutput err]\<rparr>
                 | Inr n \<Rightarrow> st2)
      in (Completed, yield st3 [Usage inputTokens outputTokens]))"

text \<open>The \<open>catch (error)\<close> of the whole request; \<open>i\<close> chunks had been delivered.\<close>

definition on_error :: "nat option \<Rightarrow> nat \<Rightarrow> 'm run \<Rightarrow> thrown \<Rightarrow> status \<times> 'm run" where
  "on_error ab i st error =
     (if isCancel error \<or> name error = js ''CanceledError'' \<or> aborted ab i then (Stopped, st)
      else if code error = Some (js ''ECONNABORTED'') then (Failed TimedOut, st)
      else if code error = Some (js ''ERR_STREAM_DESTROYED'') then (Stopped, st)
      else (Failed CheckLogs, st\<lparr>logged := logged st @ [StreamError error]\<rparr>))"

definition count_input :: "'m env \<Rightarrow> jstring \<Rightarrow> MessageParam list \<Rightarrow> thrown + nat" where
  "count_input env systemPrompt messages =
     countTokens env (systemPrompt # toContentBlocks (Messages messages))"

text \<open>The state when the request is sent: nothing yielded, the parser and matcher new.\<close>

definition start :: "'m env \<Rightarrow> thrown + nat \<Rightarrow> 'm run" where
  "start env counted =
     \<lparr>sseParser = new_SSEParser, matcher = newMatcher env, assistantText = [], yielded = [],
      logged = (case counted of Inl err \<Rightarrow> [FailedCountInput err] | Inr n \<Rightarrow> [])\<rparr>"

text \<open>
  The generator as a function of what its surroundings do: the response of the transport
  and the moment the abort signal is set. The result is how the run ends and the final
  state, whose field \<open>yielded\<close> holds the events in the order of the \<open>yield\<close>s. The
  request parameters do not influence the events and are left out, as are the calls of
  \<open>console.log\<close> and the \<open>finally\<close> block, which only releases the stream. After a
  \<open>break\<close> the signal is still set, so the branch after the loop is the one that stops.
\<close>

definition createMessage ::
  "'m env \<Rightarrow> jstring \<Rightarrow> MessageParam list \<Rightarrow> response \<Rightarrow> nat option \<Rightarrow> status \<times> 'm run"
where
  "createMessage env systemPrompt messages resp ab =
     (let counted = count_input env systemPrompt messages;
          inputTokens = (case counted of Inl err \<Rightarrow> 0 | Inr n \<Rightarrow> n);
          st0 = start env counted
      in case resp of
           RequestFailed error \<Rightarrow> on_error ab 0 st0 error
         | NoStream \<Rightarrow> on_error ab 0 st0 plain_Error
         | Stream chunks ending \<Rightarrow>
             (case stream_loop env ab 0 st0 chunks of
                (True, st) \<Rightarrow> (Stopped, st)
              | (False, st) \<Rightarrow>
                  (case ending of
                     Throw error \<Rightarrow> on_error ab (length chunks) st error
                   | End \<Rightarrow>
                       if \<not> aborted ab (length chunks) then complete env inputTokens st
                       else (Stopped, st))))"



text \<open>The environment of the handler with the matcher for the tag \<open>think\<close>.\<close>

definition think_env ::
  "(jstring list \<Rightarrow> thrown + nat) \<Rightarrow> (jstring \<Rightarrow> completion_chunk option)
     \<Rightarrow> (event list \<Rightarrow> jstring \<Rightarrow> nat list) \<Rightarrow> XmlMatcher env"
where
  "think_env count parse_json finish =
     \<lparr>countTokens = count, JSON_parse = parse_json, processFinishReason = finish,
      newMatcher = new_XmlMatcher (js ''think''), matcherUpdate = xm_update,
      matcherFinal = xm_final\<rparr>"


subsection \<open>An example environment\<close>

text \<open>
  Three payloads and what \<open>JSON.parse\<close> makes of them; any other payload is malformed.
  Tokens are counted as code units, and a finish reason \<open>tool_calls\<close> ends the call
  with index 0.
\<close>

definition hello_payload :: jstring where
  \<open>hello_payload = js ''{"choices":[{"delta":{"content":"Hello"}}]}''\<close>

definition think_payload :: jstring where
  \<open>think_payload = js ''{"choices":[{"delta":{"content":"<think>hm</think>ok"}}]}''\<close>

definition tool_payload :: jstring where
  \<open>tool_payload = js ''{"choices":[{"delta":{"content":"A","tool_calls":[{"index":0,"id":"a","function":{"name":"x"}}]},"finish_reason":"tool_calls"}]}''\<close>

definition content_chunk :: "jstring \<Rightarrow> completion_chunk" where
  "content_chunk t =
     \<lparr>choices = Some [\<lparr>choice_delta = Some \<lparr>delta_content = Some t, delta_tool_calls = None\<rparr>,
                       finish_reason = None\<rparr>]\<rparr>"

definition tool_chunk :: completion_chunk where
  "tool_chunk =
     \<lparr>choices = Some [\<lparr>choice_delta = Some \<lparr>delta_content = Some (js ''A''),
          delta_tool_calls = Some [\<lparr>tc_index = 0, tc_id = Some (js ''a''),
             tc_function = Some \<lparr>fn_name = Some (js ''x''), fn_arguments = None\<rparr>\<rparr>]\<rparr>,
        finish_reason = Some (js ''tool_calls'')\<rparr>]\<rparr>"

definition example_parse :: "jstring \<Rightarrow> completion_chunk option" where
  "example_parse payload =
     (if payload = hello_payload then Some (content_chunk (js ''Hello''))
      else if payload = think_payload then Some (content_chunk (js ''<think>hm</think>ok''))
      else if payload = tool_payload then Some tool_chunk
      else None)"

definition example_env :: "XmlMatcher env" where
  "example_env =
     think_env (\<lambda>blocks. Inr (length (concat blocks))) example_parse
       (\<lambda>evs reason. if reason = js ''tool_calls'' then [0] else [])"

text \<open>A payload as a frame on the wire: \<open>data: <payload>\<close> and an empty line.\<close>

definition sse :: "jstring \<Rightarrow> jstring" where
  "sse payload = js ''data: '' @ payload @ [nl, nl]"

subsection \<open>Errors of the transport when no cancellation was requested\<close>

text \<open>
  How the \<open>catch\<close> block classifies an error while the abort signal is not set: a
  cancellation error and \<open>ERR_STREAM_DESTROYED\<close> end the run silently,
  \<open>ECONNABORTED\<close> and every other error are failures.
\<close>

definition error_status :: "thrown \<Rightarrow> status" where
  "error_status e =
     (if isCancel e \<or> name e = js ''CanceledError'' then Stopped
      else if code e = Some (js ''ECONNABORTED'') then Failed TimedOut
      else if code e = Some (js ''ERR_STREAM_DESTROYED'') then Stopped
      else Failed CheckLogs)"

text \<open>The error of a stream destroyed under the reader, as Node reports it.\<close>

definition stream_destroyed :: thrown where
  "stream_destroyed =
     \<lparr>isCancel = False, name = js ''Error'', code = Some (js ''ERR_STREAM_DESTROYED'')\<rparr>"

subsection \<open>Notions for the proofs about a run\<close>

text \<open>A state of a run without its log.\<close>

definition unlogged :: "'m run \<Rightarrow> 'm run" where
  "unlogged st = st\<lparr>logged := []\<rparr>"

text \<open>The content delta of a payload, if it parses and has one.\<close>

definition final_content :: "'m env \<Rightarrow> jstring \<Rightarrow> jstring option" where
  "final_content env payload =
     Option.bind (Option.bind (JSON_parse env payload) get_delta) delta_content"

text \<open>
  A second parser for the examples: it reads the payload with the tool call as if it had
  the content alone.
\<close>

definition content_only_parse :: "jstring \<Rightarrow> completion_chunk option" where
  "content_only_parse payload =
     (if payload = tool_payload then Some (content_chunk (js ''A'')) else example_parse payload)"

section \<open>Splitting into lines\<close>

lemma split_nl_nonempty: "split_nl s \<noteq> []"
  by (induction s) (auto split: list.splits)

lemma split_nl_append:
  "split_nl (a @ b) = butlast (split_nl a) @ split_nl (last (split_nl a) @ b)"
proof (induction a)
  case Nil
  show ?case by simp
next
  case (Cons c a)
  obtain l ls where s: "split_nl a = l # ls"
    using split_nl_nonempty [of a] by (cases "split_nl a") auto
  obtain m ms where t: "split_nl (last (split_nl a) @ b) = m # ms"
    using split_nl_nonempty [of "last (split_nl a) @ b"]
    by (cases "split_nl (last (split_nl a) @ b)") auto
  show ?case
  proof (cases "c = nl")
    case True
    with Cons s show ?thesis by simp
  next
    case False
    show ?thesis
    proof (cases ls)
      case Nil
      with False Cons s t show ?thesis by simp
    next
      case (Cons l' ls')
      with False Cons.IH s t show ?thesis by simp
    qed
  qed
qed

lemma split_nl_no_nl: "l \<in> set (split_nl s) \<Longrightarrow> nl \<notin> set l"
proof (induction s arbitrary: l)
  case Nil
  then show ?case by simp
next
  case (Cons c s)
  obtain m ms where s: "split_nl s = m # ms"
    using split_nl_nonempty [of s] by (cases "split_nl s") auto
  from Cons.prems Cons.IH s show ?case
    by (auto split: if_splits)
qed

lemma join_nl_Cons: "ls \<noteq> [] \<Longrightarrow> join_nl (l # ls) = l @ nl # join_nl ls"
  by (cases ls) auto

lemma join_split_nl: "join_nl (split_nl s) = s"
proof (induction s)
  case Nil
  show ?case by simp
next
  case (Cons c s)
  obtain m ms where s: "split_nl s = m # ms"
    using split_nl_nonempty [of s] by (cases "split_nl s") auto
  show ?case
  proof (cases "c = nl")
    case True
    with Cons s show ?thesis by (simp add: join_nl_Cons)
  next
    case False
    with Cons s show ?thesis by (cases ms) auto
  qed
qed

section \<open>The demuxer as a function of the whole stream\<close>

lemma parse_loop_append:
  "parse_loop rs (ls @ ms) = parse_loop (parse_loop rs ls) ms"
  by (induction ls arbitrary: rs) auto

lemma parse_line_acc: "parse_line rs l = rs @ parse_line [] l"
  by (simp add: parse_line_def Let_def)

lemma parse_loop_acc: "parse_loop rs ls = rs @ parse_loop [] ls"
proof (induction ls arbitrary: rs)
  case Nil
  show ?case by simp
next
  case (Cons l ls)
  have "parse_loop rs (l # ls) = parse_line rs l @ parse_loop [] ls"
    using Cons [of "parse_line rs l"] by simp
  also have "\<dots> = rs @ parse_line [] l @ parse_loop [] ls"
    using parse_line_acc [of rs l] by simp
  also have "\<dots> = rs @ parse_loop [] (l # ls)"
    using Cons [of "parse_line [] l"] by simp
  finally show ?case .
qed

lemma parse_loop_frames: "parse_loop [] ls = List.map_filter frame_of_line ls"
proof (induction ls)
  case Nil
  show ?case by (simp add: List.map_filter_simps)
next
  case (Cons l ls)
  have len: "length data_prefix = 6"
    by (simp add: data_prefix_def js_def)
  have "parse_loop [] (l # ls) = parse_line [] l @ parse_loop [] ls"
    using parse_loop_acc [of "parse_line [] l" ls] by simp
  moreover have "parse_line [] l = (case frame_of_line l of None \<Rightarrow> [] | Some d \<Rightarrow> [d])"
    by (simp add: parse_line_def frame_of_line_def len Let_def)
  ultimately show ?case
    using Cons by (simp add: List.map_filter_simps split: option.splits)
qed

lemma parse_eq:
  "parse p chunk =
     (parse_loop [] (butlast (split_nl (buffer p @ chunk))),
      p\<lparr>buffer := last (split_nl (buffer p @ chunk))\<rparr>)"
  by (simp add: parse_def Let_def split_nl_nonempty)

lemma split_nl_single: "nl \<notin> set s \<Longrightarrow> split_nl s = [s]"
  by (induction s) auto

lemma last_split_nl_no_nl: "nl \<notin> set (last (split_nl s))"
  using split_nl_no_nl [of "last (split_nl s)" s] split_nl_nonempty [of s] by simp

lemma feed_all_eq:
  "nl \<notin> set (buffer p) \<Longrightarrow>
   feed_all p chunks =
     (parse_loop [] (butlast (split_nl (buffer p @ concat chunks))),
      p\<lparr>buffer := last (split_nl (buffer p @ concat chunks))\<rparr>)"
proof (induction chunks arbitrary: p)
  case Nil
  then show ?case by (simp add: split_nl_single)
next
  case (Cons c cs)
  let ?p' = "p\<lparr>buffer := last (split_nl (buffer p @ c))\<rparr>"
  have inv: "nl \<notin> set (buffer ?p')"
    by (simp add: last_split_nl_no_nl)
  have split: "split_nl (buffer p @ c @ concat cs) =
      butlast (split_nl (buffer p @ c)) @ split_nl (last (split_nl (buffer p @ c)) @ concat cs)"
    using split_nl_append [of "buffer p @ c" "concat cs"] by simp
  have ne: "split_nl (last (split_nl (buffer p @ c)) @ concat cs) \<noteq> []"
    by (rule split_nl_nonempty)
  show ?case
    using Cons.IH [OF inv] ne
    by (simp add: parse_eq split butlast_append parse_loop_append
        parse_loop_acc [of "parse_loop [] (butlast (split_nl (buffer p @ c)))"])
qed

lemma demux_eq:
  "demux chunks =
     parse_loop [] (butlast (split_nl (concat chunks)))
       @ final \<lparr>buffer = last (split_nl (concat chunks))\<rparr>"
  using feed_all_eq [of new_SSEParser chunks]
  by (simp add: demux_def new_SSEParser_def)

section \<open>The matcher against the classification of the whole text\<close>

lemma flat_collect: "flat (collect chunks k d) = flat chunks @ map (Pair k) d"
proof (cases "chunks = []")
  case True
  then show ?thesis by (simp add: collect_def flat_def)
next
  case False
  then obtain cs l where c: "chunks = cs @ [l]"
    by (metis append_butlast_last_id)
  then show ?thesis by (cases l) (auto simp: collect_def flat_def)
qed


lemma awaited_tag: "awaited m = tag (tagName m) (matched m)"
  by (simp add: awaited_def tag_def)

lemma tag_shape:
  assumes "lt \<notin> set tg"
  shows "\<exists>rest. tag tg ins = lt # rest \<and> lt \<notin> set rest \<and> rest \<noteq> []"
  using assms by (auto simp: tag_def open_tag_def close_tag_def js_def lt_def)

lemma mask_Cons:
  "reasoning_mask tg ins (c # s) =
     (if prefix (tag tg ins) (c # s)
      then replicate (length (tag tg ins)) True
             @ reasoning_mask tg (\<not> ins) (drop (length (tag tg ins)) (c # s))
      else ins # reasoning_mask tg ins s)"
  by (simp add: tag_def Let_def)

lemma mask_no_lt:
  assumes "lt \<notin> set tg" "lt \<notin> set q"
  shows "reasoning_mask tg ins (q @ r) = replicate (length q) ins @ reasoning_mask tg ins r"
  using assms(2)
proof (induction q)
  case Nil
  show ?case by simp
next
  case (Cons a q)
  obtain rest where t: "tag tg ins = lt # rest"
    using tag_shape [OF assms(1)] by blast
  from Cons.prems have "a \<noteq> lt" by auto
  with t have "\<not> prefix (tag tg ins) (a # q @ r)" by simp
  with Cons show ?case
    using mask_Cons [of tg ins a "q @ r"] by simp
qed

lemma mask_tag:
  assumes "lt \<notin> set tg"
  shows "reasoning_mask tg ins (tag tg ins @ s) =
           replicate (length (tag tg ins)) True @ reasoning_mask tg (\<not> ins) s"
proof -
  obtain rest where t: "tag tg ins = lt # rest"
    using tag_shape [OF assms] by blast
  have "reasoning_mask tg ins (lt # rest @ s) =
      replicate (length (tag tg ins)) True
        @ reasoning_mask tg (\<not> ins) (drop (length (tag tg ins)) (lt # rest @ s))"
    using mask_Cons [of tg ins lt "rest @ s"] t by simp
  then show ?thesis using t by simp
qed

lemma mask_mismatch:
  assumes tg: "lt \<notin> set tg"
    and p: "strict_prefix p (tag tg ins)"
    and c: "\<not> prefix (p @ [c]) (tag tg ins)"
  shows "reasoning_mask tg ins (p @ c # s) = replicate (length p) ins @ reasoning_mask tg ins (c # s)"
proof (cases p)
  case Nil
  then show ?thesis by simp
next
  case (Cons a q)
  obtain rest where t: "tag tg ins = lt # rest" and r: "lt \<notin> set rest"
    using tag_shape [OF tg] by blast
  from p Cons t have a: "a = lt" and q: "prefix q rest"
    by (auto simp: strict_prefix_def)
  from q r have nq: "lt \<notin> set q"
    using set_mono_prefix by blast
  have "\<not> prefix (tag tg ins) (p @ c # s)"
  proof
    assume h: "prefix (tag tg ins) (p @ c # s)"
    from p obtain t' where t': "tag tg ins = p @ t'" "t' \<noteq> []"
      by (auto simp: strict_prefix_def prefix_def)
    with h have "prefix t' (c # s)" by simp
    with t' obtain t'' where "t' = c # t''"
      by (cases t') auto
    with t' have "prefix (p @ [c]) (tag tg ins)" by (simp add: prefix_def)
    with c show False by simp
  qed
  then have "reasoning_mask tg ins (p @ c # s) = ins # reasoning_mask tg ins (q @ c # s)"
    using mask_Cons [of tg ins a "q @ c # s"] Cons by simp
  also have "\<dots> = ins # replicate (length q) ins @ reasoning_mask tg ins (c # s)"
    using mask_no_lt [OF tg nq] by simp
  finally show ?thesis using Cons by simp
qed

lemma mask_pending:
  assumes tg: "lt \<notin> set tg" and p: "strict_prefix p (tag tg ins)"
  shows "reasoning_mask tg ins p = replicate (length p) ins"
proof (cases p)
  case Nil
  then show ?thesis by simp
next
  case (Cons a q)
  obtain rest where t: "tag tg ins = lt # rest" and r: "lt \<notin> set rest"
    using tag_shape [OF tg] by blast
  from p Cons t have q: "prefix q rest"
    by (auto simp: strict_prefix_def)
  from q r have nq: "lt \<notin> set q"
    using set_mono_prefix by blast
  from p have "\<not> prefix (tag tg ins) p"
    by (auto simp: strict_prefix_def)
  then have "reasoning_mask tg ins p = ins # reasoning_mask tg ins (q @ [])"
    using mask_Cons [of tg ins a q] Cons by simp
  also have "\<dots> = ins # replicate (length q) ins"
    using mask_no_lt [OF tg nq, of ins "[]"] by simp
  finally show ?thesis using Cons by simp
qed

lemma length_mask: "length (reasoning_mask tg ins s) = length s"
proof (induction tg ins s rule: reasoning_mask.induct)
  case (1 tg ins)
  show ?case by simp
next
  case (2 tg ins c s)
  show ?case
  proof (cases "prefix (tag tg ins) (c # s)")
    case True
    then have "length (tag tg ins) \<le> length (c # s)"
      by (rule prefix_length_le)
    with True 2 show ?thesis
      by (simp add: mask_Cons tag_def del: reasoning_mask.simps)
  next
    case False
    with 2 show ?thesis by (simp add: mask_Cons tag_def del: reasoning_mask.simps)
  qed
qed


lemma zip_replicate_append:
  "length xs = n \<Longrightarrow> zip (replicate n k @ bs) (xs @ ys) = map (Pair k) xs @ zip bs ys"
  by (induction xs arbitrary: n) auto

lemma xm_char_step:
  assumes g: "good m" and st: "xm_char (chunks, m) c = (chunks', m')"
  shows "flat chunks' @ rest_out m' s = flat chunks @ rest_out m (c # s) \<and> good m'
         \<and> tagName m' = tagName m"
proof -
  let ?tg = "tagName m" and ?ins = "matched m" and ?p = "cached m"
  from g have tg: "lt \<notin> set ?tg" and p: "strict_prefix ?p (tag ?tg ?ins)"
    by (auto simp: good_def)
  obtain rest where t: "tag ?tg ?ins = lt # rest" and r: "lt \<notin> set rest" and rne: "rest \<noteq> []"
    using tag_shape [OF tg] by blast
  obtain rest' where t': "tag ?tg (\<not> ?ins) = lt # rest'"
    using tag_shape [OF tg] by blast
  consider (full) "?p @ [c] = tag ?tg ?ins"
    | (more) "?p @ [c] \<noteq> tag ?tg ?ins" "prefix (?p @ [c]) (tag ?tg ?ins)"
    | (restart) "\<not> prefix (?p @ [c]) (tag ?tg ?ins)" "c = lt"
    | (plain) "\<not> prefix (?p @ [c]) (tag ?tg ?ins)" "c \<noteq> lt"
    by blast
  then show ?thesis
  proof cases
    case full
    with st have c': "chunks' = collect chunks True (?p @ [c])"
      and m': "m' = m\<lparr>matched := \<not> ?ins, cached := []\<rparr>"
      by (auto simp: xm_char_def awaited_tag Let_def)
    have "reasoning_mask ?tg ?ins ((?p @ [c]) @ s)
        = replicate (length (?p @ [c])) True @ reasoning_mask ?tg (\<not> ?ins) s"
      using mask_tag [OF tg, of ?ins s] full by simp
    then have "rest_out m (c # s) = map (Pair True) (?p @ [c]) @ rest_out m' s"
      using zip_replicate_append [of "?p @ [c]" "length (?p @ [c])" True _ s]
      by (simp add: rest_out_def m')
    moreover have "good m'"
      using tg t' by (simp add: good_def m' strict_prefix_def)
    ultimately show ?thesis
      by (simp add: c' flat_collect m')
  next
    case more
    with st have c': "chunks' = chunks" and m': "m' = m\<lparr>cached := ?p @ [c]\<rparr>"
      by (auto simp: xm_char_def awaited_tag Let_def)
    from more have "good m'"
      using tg by (simp add: good_def m' strict_prefix_def)
    then show ?thesis
      by (simp add: c' m' rest_out_def)
  next
    case restart
    from restart(1) have ne: "?p @ [c] \<noteq> tag ?tg ?ins" by auto
    from restart t have pc: "prefix [c] (tag ?tg ?ins)" by simp
    from ne restart(1) pc st have c': "chunks' = collect chunks ?ins ?p"
      and m': "m' = m\<lparr>cached := [c]\<rparr>"
      by (auto simp: xm_char_def awaited_tag Let_def)
    have "reasoning_mask ?tg ?ins (?p @ c # s)
        = replicate (length ?p) ?ins @ reasoning_mask ?tg ?ins (c # s)"
      by (rule mask_mismatch [OF tg p restart(1)])
    then have "rest_out m (c # s) = map (Pair ?ins) ?p @ rest_out m' s"
      using zip_replicate_append [of ?p "length ?p" ?ins _ "c # s"]
      by (simp add: rest_out_def m')
    moreover have "good m'"
      using tg t rne restart(2) by (simp add: good_def m' strict_prefix_def)
    ultimately show ?thesis
      by (simp add: c' flat_collect m')
  next
    case plain
    from plain(1) have ne: "?p @ [c] \<noteq> tag ?tg ?ins" by auto
    from plain t have pc: "\<not> prefix [c] (tag ?tg ?ins)" by simp
    from ne plain(1) pc st have c': "chunks' = collect (collect chunks ?ins ?p) ?ins [c]"
      and m': "m' = m\<lparr>cached := []\<rparr>"
      by (auto simp: xm_char_def awaited_tag Let_def)
    have "reasoning_mask ?tg ?ins (?p @ c # s)
        = replicate (length ?p) ?ins @ reasoning_mask ?tg ?ins (c # s)"
      by (rule mask_mismatch [OF tg p plain(1)])
    moreover have "reasoning_mask ?tg ?ins (c # s) = ?ins # reasoning_mask ?tg ?ins s"
      using mask_no_lt [OF tg, of "[c]" ?ins s] plain(2) by simp
    ultimately have "rest_out m (c # s) = map (Pair ?ins) ?p @ (?ins, c) # rest_out m' s"
      using zip_replicate_append [of ?p "length ?p" ?ins _ "c # s"]
      by (simp add: rest_out_def m')
    moreover have "good m'"
      using tg t by (simp add: good_def m' strict_prefix_def)
    ultimately show ?thesis
      by (simp add: c' flat_collect m')
  qed
qed

lemma xm_foldl:
  assumes "good m" and "foldl xm_char (chunks, m) d = (chunks', m')"
  shows "flat chunks' @ rest_out m' s = flat chunks @ rest_out m (d @ s) \<and> good m'
         \<and> tagName m' = tagName m"
  using assms
proof (induction d arbitrary: chunks m)
  case Nil
  then show ?case by simp
next
  case (Cons c d)
  obtain chunks1 m1 where s1: "xm_char (chunks, m) c = (chunks1, m1)"
    by (cases "xm_char (chunks, m) c") auto
  from xm_char_step [OF Cons.prems(1) s1, of "d @ s"]
  have a: "flat chunks1 @ rest_out m1 (d @ s) = flat chunks @ rest_out m (c # d @ s)"
    and g1: "good m1" and n1: "tagName m1 = tagName m"
    by auto
  from Cons.prems(2) s1 have "foldl xm_char (chunks1, m1) d = (chunks', m')" by simp
  from Cons.IH [OF g1 this] a n1 show ?case by simp
qed

lemma flat_append: "flat (xs @ ys) = flat xs @ flat ys"
  by (simp add: flat_def)

lemma xm_run_flat:
  "good m \<Longrightarrow> flat (xm_run m ds) = rest_out m (concat ds)"
proof (induction ds arbitrary: m)
  case Nil
  then have "reasoning_mask (tagName m) (matched m) (cached m)
      = replicate (length (cached m)) (matched m)"
    using mask_pending by (simp add: good_def)
  then show ?case
    using zip_replicate_append [of "cached m" "length (cached m)" "matched m" "[]" "[]"]
      flat_collect [of "[]" "matched m" "cached m"]
    by (simp add: xm_final_def rest_out_def flat_def)
next
  case (Cons d ds)
  obtain chunks m' where u: "xm_update m d = (chunks, m')"
    by (cases "xm_update m d") auto
  then have f: "foldl xm_char ([], m) d = (chunks, m')"
    by (simp add: xm_update_def)
  from xm_foldl [OF Cons.prems f, of "concat ds"]
  have "flat chunks @ rest_out m' (concat ds) = rest_out m (d @ concat ds)" and "good m'"
    by (auto simp: flat_def)
  with Cons.IH [of m'] u show ?case
    by (simp add: flat_append)
qed

section \<open>Claims about the SSE demuxer\<close>

text \<open>
  C1. Chunk-boundary independence: two ways of cutting the same text stream into chunks,
  fed to \<open>parse\<close> in order and then flushed with \<open>final\<close>, give the same ordered list
  of frame payloads.
\<close>

theorem demux_chunking_independent:
  "concat chunks = concat chunks' \<Longrightarrow> demux chunks = demux chunks'"
  by (simp add: demux_eq)

theorem demux_chunking_independent_witness:
  "concat [js ''data: {a'', js ''}'' @ [nl, nl] @ js ''data: b''] =
     concat [js ''da'', js ''ta: {a}'' @ [nl], nl # js ''data: '', js ''b'']
   \<and> demux [js ''data: {a'', js ''}'' @ [nl, nl] @ js ''data: b''] =
     demux [js ''da'', js ''ta: {a}'' @ [nl], nl # js ''data: '', js ''b'']
   \<and> demux [js ''data: {a'', js ''}'' @ [nl, nl] @ js ''data: b''] = [js ''{a}'', js ''b'']"
proof -
  have c: "concat [js ''data: {a'', js ''}'' @ [nl, nl] @ js ''data: b''] =
     concat [js ''da'', js ''ta: {a}'' @ [nl], nl # js ''data: '', js ''b'']"
    by (simp add: js_def)
  have v: "demux [js ''data: {a'', js ''}'' @ [nl, nl] @ js ''data: b''] = [js ''{a}'', js ''b'']"
    by code_simp
  from c demux_chunking_independent [OF c] v show ?thesis by simp
qed

text \<open>
  C5 (as the code has it). \<open>parse\<close> cuts the buffered text followed by the chunk at
  the line feeds, keeps the last piece as the new buffer, and applies the line rule of
  the specification to every complete line, in order: a line with the prefix
  \<open>data: \<close> gives its trimmed payload unless that is empty or \<open>[DONE]\<close>, any other
  line gives nothing. \<open>final\<close> applies the same rule to the buffered text after
  trimming it, so white space in front of the prefix is accepted in the last,
  unterminated line although it is not in a complete line.
\<close>

theorem parse_final_line_rule:
  "parse p chunk =
     (List.map_filter frame_of_line (butlast (split_nl (buffer p @ chunk))),
      p\<lparr>buffer := last (split_nl (buffer p @ chunk))\<rparr>)
   \<and> join_nl (split_nl (buffer p @ chunk)) = buffer p @ chunk
   \<and> (\<forall>l \<in> set (split_nl (buffer p @ chunk)). nl \<notin> set l)
   \<and> final p = (case frame_of_line (trim (buffer p)) of None \<Rightarrow> [] | Some d \<Rightarrow> [d])"
proof -
  have len: "length data_prefix = 6"
    by (simp add: data_prefix_def js_def)
  have ne: "data_prefix \<noteq> []"
    using len by auto
  have "final p = (case frame_of_line (trim (buffer p)) of None \<Rightarrow> [] | Some d \<Rightarrow> [d])"
  proof (cases "trim (buffer p) = []")
    case True
    with ne show ?thesis
      by (simp add: final_def frame_of_line_def startsWith_def)
  next
    case False
    then show ?thesis
      by (simp add: final_def frame_of_line_def len Let_def)
  qed
  then show ?thesis
    using split_nl_no_nl [of _ "buffer p @ chunk"]
    by (simp add: parse_eq parse_loop_frames join_split_nl)
qed

theorem parse_final_line_rule_witness:
  "parse \<lparr>buffer = js ''data: {a''\<rparr> (js ''}'' @ nl # js ''id: 7'' @ nl # js ''data: [DONE]'' @ nl # js '' data: b'')
     = ([js ''{a}''], \<lparr>buffer = js '' data: b''\<rparr>)
   \<and> nl \<notin> set (js ''data: [DONE]'')
   \<and> final \<lparr>buffer = js '' data: b''\<rparr> = [js ''b'']"
proof -
  have a: "parse \<lparr>buffer = js ''data: {a''\<rparr> (js ''}'' @ nl # js ''id: 7'' @ nl # js ''data: [DONE]'' @ nl # js '' data: b'')
     = ([js ''{a}''], \<lparr>buffer = js '' data: b''\<rparr>)"
    by code_simp
  have b: "final \<lparr>buffer = js '' data: b''\<rparr> = [js ''b'']"
    by code_simp
  have c: "js ''data: [DONE]'' \<in>
      set (split_nl (buffer \<lparr>buffer = js ''data: {a''\<rparr>
        @ js ''}'' @ nl # js ''id: 7'' @ nl # js ''data: [DONE]'' @ nl # js '' data: b''))"
    by code_simp
  from a b c
    parse_final_line_rule [of "\<lparr>buffer = js ''data: {a''\<rparr>"
      "js ''}'' @ nl # js ''id: 7'' @ nl # js ''data: [DONE]'' @ nl # js '' data: b''"]
  show ?thesis by blast
qed

text \<open>
  C5 as stated fails for \<open>final\<close>: the buffered text \<open>" data: b"\<close> does not start with
  the prefix, so the line rule gives nothing for it (and \<open>parse\<close> gives nothing for it
  as a complete line), but \<open>final\<close> returns the payload \<open>b\<close>.
\<close>

theorem final_not_line_rule_counterexample:
  "frame_of_line (js '' data: b'') = None
   \<and> fst (parse \<lparr>buffer = []\<rparr> (js '' data: b'' @ [nl])) = []
   \<and> final \<lparr>buffer = js '' data: b''\<rparr> = [js ''b'']"
  by code_simp

section \<open>Claims about the models listing\<close>

text \<open>
  C9. \<open>getLmStudioModels\<close> never lets an error reach its caller, whatever the base URL,
  the URL parser and the HTTP client do; when the base URL does not parse, or the request
  throws, the result is the empty list.
\<close>

theorem getLmStudioModels_never_throws:
  "(\<exists>ids. getLmStudioModels canParse axios_get arg = Inr ids)
   \<and> (\<not> canParse (case arg of None \<Rightarrow> default_baseUrl | Some u \<Rightarrow> u)
        \<longrightarrow> getLmStudioModels canParse axios_get arg = Inr [])
   \<and> ((\<exists>e. axios_get ((case arg of None \<Rightarrow> default_baseUrl | Some u \<Rightarrow> u) @ js ''/v1/models'') = Inl e)
        \<longrightarrow> getLmStudioModels canParse axios_get arg = Inr [])"
  by (auto simp: getLmStudioModels_def getLmStudioModels_try_def Let_def
      split: sum.splits option.splits)

theorem getLmStudioModels_never_throws_witness:
  "getLmStudioModels (\<lambda>u. u \<noteq> js ''nonsense'') (\<lambda>u. Inl plain_Error) (Some (js ''nonsense'')) = Inr []
   \<and> getLmStudioModels (\<lambda>u. u \<noteq> js ''nonsense'') (\<lambda>u. Inl plain_Error) None = Inr []
   \<and> getLmStudioModels (\<lambda>u. True) (\<lambda>u. Inr \<lparr>response_data = Some NotArray\<rparr>) None = Inr []
   \<and> getLmStudioModels (\<lambda>u. True)
        (\<lambda>u. Inr \<lparr>response_data = Some (Models [Entry (js ''a''), Entry (js ''b''), Entry (js ''a'')])\<rparr>) None
      = Inr [js ''a'', js ''b'']"
proof -
  have np: "\<not> (\<lambda>u. u \<noteq> js ''nonsense'')
      (case Some (js ''nonsense'') of None \<Rightarrow> default_baseUrl | Some u \<Rightarrow> u)"
    by simp
  have fl: "\<exists>e. (\<lambda>u. Inl plain_Error :: thrown + models_response)
      ((case None of None \<Rightarrow> default_baseUrl | Some u \<Rightarrow> u) @ js ''/v1/models'') = Inl e"
    by simp
  have a: "getLmStudioModels (\<lambda>u. u \<noteq> js ''nonsense'') (\<lambda>u. Inl plain_Error) (Some (js ''nonsense'')) = Inr []"
    using np getLmStudioModels_never_throws
      [of "\<lambda>u. u \<noteq> js ''nonsense''" "\<lambda>u. Inl plain_Error" "Some (js ''nonsense'')"]
    by blast
  have b: "getLmStudioModels (\<lambda>u. u \<noteq> js ''nonsense'') (\<lambda>u. Inl plain_Error) None = Inr []"
    using fl getLmStudioModels_never_throws
      [of "\<lambda>u. u \<noteq> js ''nonsense''" "\<lambda>u. Inl plain_Error" None]
    by blast
  have c: "getLmStudioModels (\<lambda>u. True) (\<lambda>u. Inr \<lparr>response_data = Some NotArray\<rparr>) None = Inr []"
    by (simp add: getLmStudioModels_def getLmStudioModels_try_def)
  have d: "getLmStudioModels (\<lambda>u. True)
        (\<lambda>u. Inr \<lparr>response_data = Some (Models [Entry (js ''a''), Entry (js ''b''), Entry (js ''a'')])\<rparr>) None
      = Inr [js ''a'', js ''b'']"
    by (simp add: getLmStudioModels_def getLmStudioModels_try_def new_Set_def Set_add_def js_def)
  from a b c d show ?thesis by simp
qed

section \<open>The events of a run\<close>

lemma transform_kinds:
  "\<not> list_ex is_usage (map transform chunks) \<and> \<not> list_ex is_tool_event (map transform chunks)"
  by (induction chunks) (auto simp: transform_def)

lemma on_content_yielded:
  "\<exists>evs. yielded (on_content env st d) = yielded st @ evs \<and> \<not> list_ex is_usage evs
     \<and> \<not> list_ex is_tool_event evs"
proof (cases "Option.bind d delta_content")
  case None
  then show ?thesis by (simp add: on_content_def)
next
  case (Some t)
  obtain chunks m' where u: "matcherUpdate env (matcher st) t = (chunks, m')"
    by (cases "matcherUpdate env (matcher st) t") auto
  with Some transform_kinds [of chunks] show ?thesis
    by (auto simp: on_content_def yield_def)
qed




lemma foldl_yielded:
  assumes "\<And>st d. \<exists>evs. yielded (f st d) = yielded st @ evs \<and> \<not> list_ex P evs"
  shows "\<exists>evs. yielded (foldl f st ds) = yielded st @ evs \<and> \<not> list_ex P evs"
proof (induction ds arbitrary: st)
  case Nil
  show ?case by simp
next
  case (Cons d ds)
  obtain e1 where 1: "yielded (f st d) = yielded st @ e1" "\<not> list_ex P e1"
    using assms by blast
  obtain e2 where 2: "yielded (foldl f (f st d) ds) = yielded (f st d) @ e2" "\<not> list_ex P e2"
    using Cons by blast
  from 1 2 have "yielded (foldl f st (d # ds)) = yielded st @ (e1 @ e2) \<and> \<not> list_ex P (e1 @ e2)"
    by simp
  then show ?case by blast
qed



lemma loop_None: "stream_loop env None i st chunks = (False, foldl (on_chunk env) st chunks)"
  by (induction chunks arbitrary: i st) (auto simp: aborted_def)


lemma aborted_mono: "aborted ab i \<Longrightarrow> i \<le> j \<Longrightarrow> aborted ab j"
  by (auto simp: aborted_def split: option.splits)

lemma loop_not_aborted:
  "\<not> aborted ab (i + length chunks) \<Longrightarrow>
   stream_loop env ab i st chunks = (False, foldl (on_chunk env) st chunks)"
proof (induction chunks arbitrary: i st)
  case Nil
  show ?case by simp
next
  case (Cons c cs)
  from Cons.prems have "\<not> aborted ab i"
    using aborted_mono [of ab i "i + length (c # cs)"] by auto
  with Cons show ?case by simp
qed


lemma process_final_data_yielded:
  "\<exists>evs. yielded (process_final_data env st d) = yielded st @ evs
     \<and> \<not> list_ex (\<lambda>e. is_usage e \<or> is_tool_event e) evs"
proof (cases "JSON_parse env d")
  case None
  then show ?thesis by (simp add: process_final_data_def)
next
  case (Some parsed)
  obtain evs where "yielded (on_content env st (get_delta parsed)) = yielded st @ evs"
    "\<not> list_ex is_usage evs" "\<not> list_ex is_tool_event evs"
    using on_content_yielded [of env st "get_delta parsed"] by blast
  with Some show ?thesis
    by (auto simp: process_final_data_def list_ex_iff)
qed

lemma flush_yielded:
  "\<exists>evs. yielded (flush env st) = yielded st @ evs
     \<and> \<not> list_ex is_usage evs \<and> \<not> list_ex is_tool_event evs"
proof -
  let ?st1 = "foldl (process_final_data env) st (final (sseParser st))"
  let ?fl = "map transform (matcherFinal env (matcher ?st1))"
  obtain e1 where 1: "yielded ?st1 = yielded st @ e1"
    and n1: "\<not> list_ex (\<lambda>e. is_usage e \<or> is_tool_event e) e1"
    using foldl_yielded [of "process_final_data env"
        "\<lambda>e. is_usage e \<or> is_tool_event e" st "final (sseParser st)",
        OF process_final_data_yielded]
    by blast
  have 2: "\<not> list_ex is_usage ?fl \<and> \<not> list_ex is_tool_event ?fl"
    by (rule transform_kinds)
  from n1 2 have "\<not> list_ex is_usage (e1 @ ?fl) \<and> \<not> list_ex is_tool_event (e1 @ ?fl)"
    by (auto simp: list_ex_iff)
  moreover have "yielded (flush env st) = yielded st @ (e1 @ ?fl)"
    using 1 by (simp add: flush_def Let_def yield_def)
  ultimately show ?thesis by blast
qed

lemma complete_eq:
  "complete env i st =
     (Completed,
      (flush env st)
        \<lparr>logged := logged (flush env st) @
           (case countTokens env [assistantText (flush env st)] of
              Inl err \<Rightarrow> [FailedCountOutput err] | Inr n \<Rightarrow> []),
         yielded := yielded (flush env st) @
           [Usage i (case countTokens env [assistantText (flush env st)] of
                       Inl err \<Rightarrow> 0 | Inr n \<Rightarrow> n)]\<rparr>)"
  by (simp add: complete_def Let_def yield_def split: sum.splits)

lemma complete_yielded:
  "\<exists>evs n st'. complete env i st = (Completed, st')
     \<and> yielded st' = yielded st @ evs @ [Usage i n]
     \<and> \<not> list_ex is_usage evs \<and> \<not> list_ex is_tool_event evs"
proof -
  obtain evs where "yielded (flush env st) = yielded st @ evs"
    "\<not> list_ex is_usage evs" "\<not> list_ex is_tool_event evs"
    using flush_yielded [of env st] by blast
  then show ?thesis
    by (simp add: complete_eq)
qed


lemma on_error_not_completed: "fst (on_error ab i st e) \<noteq> Completed"
  by (simp add: on_error_def)



lemma cm_RequestFailed:
  "createMessage env sp msgs (RequestFailed e) ab
     = on_error ab 0 (start env (count_input env sp msgs)) e"
  by (simp add: createMessage_def Let_def)

lemma cm_NoStream:
  "createMessage env sp msgs NoStream ab
     = on_error ab 0 (start env (count_input env sp msgs)) plain_Error"
  by (simp add: createMessage_def Let_def)

lemma cm_Stream_break:
  "stream_loop env ab 0 (start env (count_input env sp msgs)) chunks = (True, st) \<Longrightarrow>
   createMessage env sp msgs (Stream chunks ending) ab = (Stopped, st)"
  by (simp add: createMessage_def Let_def)

lemma cm_Stream_Throw:
  "stream_loop env ab 0 (start env (count_input env sp msgs)) chunks = (False, st) \<Longrightarrow>
   createMessage env sp msgs (Stream chunks (Throw e)) ab = on_error ab (length chunks) st e"
  by (simp add: createMessage_def Let_def)

lemma cm_Stream_End:
  "stream_loop env ab 0 (start env (count_input env sp msgs)) chunks = (False, st) \<Longrightarrow>
   createMessage env sp msgs (Stream chunks End) ab =
     (if \<not> aborted ab (length chunks)
      then complete env (case count_input env sp msgs of Inl err \<Rightarrow> 0 | Inr n \<Rightarrow> n) st
      else (Stopped, st))"
  by (simp add: createMessage_def Let_def)



section \<open>Claims about cancellation and the usage event\<close>









section \<open>The log and the token counter do not steer a run\<close>

lemma unlogged_fields [simp]:
  "sseParser (unlogged st) = sseParser st" "matcher (unlogged st) = matcher st"
  "assistantText (unlogged st) = assistantText st" "yielded (unlogged st) = yielded st"
  by (simp_all add: unlogged_def)

lemma unlogged_eqD: "unlogged st = unlogged st' \<Longrightarrow> st' = st\<lparr>logged := logged st'\<rparr>"
  by (cases st, cases st') (simp add: unlogged_def)

lemma unlogged_logged [simp]: "unlogged (st\<lparr>logged := l\<rparr>) = unlogged st"
  by (simp add: unlogged_def)

lemma on_content_logged:
  "on_content env (st\<lparr>logged := l\<rparr>) d = (on_content env st d)\<lparr>logged := l\<rparr>"
  by (simp add: on_content_def yield_def split: option.splits prod.splits)

lemma on_tool_calls_logged:
  "on_tool_calls (st\<lparr>logged := l\<rparr>) d = (on_tool_calls st d)\<lparr>logged := l\<rparr>"
  by (simp add: on_tool_calls_def yield_def split: option.splits)

lemma on_finish_reason_logged:
  "on_finish_reason env (st\<lparr>logged := l\<rparr>) r = (on_finish_reason env st r)\<lparr>logged := l\<rparr>"
  by (simp add: on_finish_reason_def yield_def split: option.splits)

lemma process_data_logged:
  "unlogged (process_data env (st\<lparr>logged := l\<rparr>) d) = unlogged (process_data env st d)"
  by (simp add: process_data_def Let_def on_content_logged on_tool_calls_logged
      on_finish_reason_logged split: option.splits)

lemma process_final_data_logged:
  "unlogged (process_final_data env (st\<lparr>logged := l\<rparr>) d) = unlogged (process_final_data env st d)"
  by (simp add: process_final_data_def on_content_logged split: option.splits)

lemma foldl_unlogged:
  assumes f: "\<And>l st d. unlogged (f (st\<lparr>logged := l\<rparr>) d) = unlogged (f st d)"
    and u: "unlogged st = unlogged st'"
  shows "unlogged (foldl f st ds) = unlogged (foldl f st' ds)"
  using u
proof (induction ds arbitrary: st st')
  case Nil
  then show ?case by simp
next
  case (Cons d ds)
  from unlogged_eqD [OF Cons.prems] f [of "logged st'" st d]
  have "unlogged (f st d) = unlogged (f st' d)" by simp
  from Cons.IH [OF this] show ?case by simp
qed

lemma on_chunk_logged:
  "unlogged (on_chunk env (st\<lparr>logged := l\<rparr>) c) = unlogged (on_chunk env st c)"
proof -
  obtain ds p' where p: "parse (sseParser st) c = (ds, p')"
    by (cases "parse (sseParser st) c") auto
  have "unlogged (st\<lparr>logged := l, sseParser := p'\<rparr>) = unlogged (st\<lparr>sseParser := p'\<rparr>)"
    by (simp add: unlogged_def)
  from foldl_unlogged [of "process_data env", OF process_data_logged this, of ds] p
  show ?thesis by (simp add: on_chunk_def)
qed

lemma consume_unlogged:
  "unlogged st = unlogged st' \<Longrightarrow>
   unlogged (foldl (on_chunk env) st cs) = unlogged (foldl (on_chunk env) st' cs)"
  by (rule foldl_unlogged [OF on_chunk_logged])

lemma flush_logged:
  "unlogged (flush env (st\<lparr>logged := l\<rparr>)) = unlogged (flush env st)"
proof -
  let ?f = "\<lambda>s. foldl (process_final_data env) s (final (sseParser st))"
  have "unlogged (?f (st\<lparr>logged := l\<rparr>)) = unlogged (?f st)"
    by (rule foldl_unlogged [OF process_final_data_logged]) simp
  from unlogged_eqD [OF this [symmetric]]
  have "?f (st\<lparr>logged := l\<rparr>) = (?f st)\<lparr>logged := logged (?f (st\<lparr>logged := l\<rparr>))\<rparr>" .
  then obtain l' where "?f (st\<lparr>logged := l\<rparr>) = (?f st)\<lparr>logged := l'\<rparr>" ..
  then show ?thesis
    by (simp add: flush_def Let_def yield_def unlogged_def)
qed

lemma flush_unlogged:
  "unlogged st = unlogged st' \<Longrightarrow> unlogged (flush env st) = unlogged (flush env st')"
  using unlogged_eqD [of st st'] flush_logged [where env = env and st = st and l = "logged st'"] by simp

text \<open>Stream loop: the log does not influence the control flow.\<close>

lemma loop_unlogged:
  "unlogged st = unlogged st' \<Longrightarrow>
   fst (stream_loop env ab i st cs) = fst (stream_loop env ab i st' cs)
   \<and> unlogged (snd (stream_loop env ab i st cs)) = unlogged (snd (stream_loop env ab i st' cs))"
proof (induction cs arbitrary: i st st')
  case Nil
  then show ?case by simp
next
  case (Cons c cs)
  from unlogged_eqD [OF Cons.prems] on_chunk_logged [where env = env and st = st and l = "logged st'" and c = c]
  have "unlogged (on_chunk env st c) = unlogged (on_chunk env st' c)" by simp
  from Cons.IH [OF this] Cons.prems show ?case by simp
qed

lemma on_content_count: "on_content (env\<lparr>countTokens := c'\<rparr>) st d = on_content env st d"
  by (simp add: on_content_def split: option.splits)

lemma on_finish_reason_count:
  "on_finish_reason (env\<lparr>countTokens := c'\<rparr>) st r = on_finish_reason env st r"
  by (simp add: on_finish_reason_def split: option.splits)

lemma process_data_count:
  "process_data (env\<lparr>countTokens := c'\<rparr>) = process_data env"
  by (intro ext)
    (simp add: process_data_def on_content_count on_finish_reason_count split: option.splits)

lemma on_chunk_count: "on_chunk (env\<lparr>countTokens := c'\<rparr>) = on_chunk env"
  by (intro ext) (simp add: on_chunk_def process_data_count)

lemma stream_loop_count:
  "stream_loop (env\<lparr>countTokens := c'\<rparr>) ab i st cs = stream_loop env ab i st cs"
  by (induction cs arbitrary: i st) (simp_all add: on_chunk_count)

lemma flush_count: "flush (env\<lparr>countTokens := c'\<rparr>) st = flush env st"
proof -
  have "process_final_data (env\<lparr>countTokens := c'\<rparr>) = process_final_data env"
    by (intro ext) (simp add: process_final_data_def on_content_count split: option.splits)
  then show ?thesis by (simp add: flush_def)
qed

lemma start_unlogged: "unlogged (start (env\<lparr>countTokens := c'\<rparr>) x) = unlogged (start env y)"
  by (simp add: start_def unlogged_def)

lemma unlogged_yielded: "unlogged st = unlogged st' \<Longrightarrow> yielded st = yielded st'"
  by (metis unlogged_fields(4))

lemma unlogged_assistantText: "unlogged st = unlogged st' \<Longrightarrow> assistantText st = assistantText st'"
  by (metis unlogged_fields(3))

lemma on_error_unlogged:
  "unlogged st = unlogged st' \<Longrightarrow>
   fst (on_error ab i st e) = fst (on_error ab i st' e)
   \<and> yielded (snd (on_error ab i st e)) = yielded (snd (on_error ab i st' e))"
  using unlogged_yielded [of st st'] by (simp add: on_error_def)

lemma complete_fields:
  "fst (complete env i st) = Completed"
  "yielded (snd (complete env i st)) = yielded (flush env st) @
     [Usage i (case countTokens env [assistantText (flush env st)] of Inl err \<Rightarrow> 0 | Inr n \<Rightarrow> n)]"
  "assistantText (snd (complete env i st)) = assistantText (flush env st)"
  by (simp_all add: complete_eq)

lemma filter_no_usage: "\<not> list_ex is_usage evs \<Longrightarrow> filter (\<lambda>e. \<not> is_usage e) evs = evs"
  by (induction evs) auto

section \<open>A run as a function of the whole stream\<close>

lemma split_nl_nl: "split_nl (a @ nl # b) = split_nl a @ split_nl b"
proof (induction a)
  case Nil
  show ?case by simp
next
  case (Cons c a)
  obtain l ls where s: "split_nl a = l # ls"
    using split_nl_nonempty [of a] by (cases "split_nl a") auto
  with Cons show ?case by simp
qed

lemma SSEParser_buffer_update: "(p :: SSEParser)\<lparr>buffer := x\<rparr> = \<lparr>buffer = x\<rparr>"
  by (cases p) simp

lemma on_content_sseParser:
  "on_content env (st\<lparr>sseParser := p\<rparr>) d = (on_content env st d)\<lparr>sseParser := p\<rparr>"
  by (simp add: on_content_def yield_def split: option.splits prod.splits)

lemma on_tool_calls_sseParser:
  "on_tool_calls (st\<lparr>sseParser := p\<rparr>) d = (on_tool_calls st d)\<lparr>sseParser := p\<rparr>"
  by (simp add: on_tool_calls_def yield_def split: option.splits)

lemma on_finish_reason_sseParser:
  "on_finish_reason env (st\<lparr>sseParser := p\<rparr>) r = (on_finish_reason env st r)\<lparr>sseParser := p\<rparr>"
  by (simp add: on_finish_reason_def yield_def split: option.splits)

lemma process_data_sseParser:
  "process_data env (st\<lparr>sseParser := p\<rparr>) d = (process_data env st d)\<lparr>sseParser := p\<rparr>"
  by (simp add: process_data_def Let_def on_content_sseParser on_tool_calls_sseParser
      on_finish_reason_sseParser split: option.splits)

lemma foldl_process_data_sseParser:
  "foldl (process_data env) (st\<lparr>sseParser := p\<rparr>) ds
     = (foldl (process_data env) st ds)\<lparr>sseParser := p\<rparr>"
  by (induction ds arbitrary: st) (simp_all add: process_data_sseParser)

lemma consume_feed_all:
  "foldl (on_chunk env) st chunks =
     (foldl (process_data env) st (fst (feed_all (sseParser st) chunks)))
       \<lparr>sseParser := snd (feed_all (sseParser st) chunks)\<rparr>"
proof (induction chunks arbitrary: st)
  case Nil
  show ?case by simp
next
  case (Cons c cs)
  obtain rs p' where p: "parse (sseParser st) c = (rs, p')"
    by (cases "parse (sseParser st) c") auto
  obtain rs' p'' where f: "feed_all p' cs = (rs', p'')"
    by (cases "feed_all p' cs") auto
  have oc: "on_chunk env st c = (foldl (process_data env) st rs)\<lparr>sseParser := p'\<rparr>"
    using p by (simp add: on_chunk_def foldl_process_data_sseParser)
  show ?case
    using Cons [of "on_chunk env st c"] p f
    by (simp add: oc foldl_process_data_sseParser)
qed

lemma consume_eq:
  assumes "nl \<notin> set (buffer (sseParser st))"
  shows "foldl (on_chunk env) st chunks =
     (foldl (process_data env) st
        (parse_loop [] (butlast (split_nl (buffer (sseParser st) @ concat chunks)))))
       \<lparr>sseParser := \<lparr>buffer = last (split_nl (buffer (sseParser st) @ concat chunks))\<rparr>\<rparr>"
  using feed_all_eq [OF assms, of chunks]
  by (simp add: consume_feed_all SSEParser_buffer_update)

lemma start_buffer: "buffer (sseParser (start env counted)) = []"
  by (simp add: start_def new_SSEParser_def)

lemma createMessage_chunking:
  assumes "concat chunks = concat chunks'"
  shows "createMessage env sp msgs (Stream chunks ending) None
       = createMessage env sp msgs (Stream chunks' ending) None"
proof -
  let ?st0 = "start env (count_input env sp msgs)"
  have "foldl (on_chunk env) ?st0 chunks = foldl (on_chunk env) ?st0 chunks'"
    using assms by (simp add: consume_eq start_buffer)
  then show ?thesis
    by (cases ending)
      (simp_all add: cm_Stream_End [OF loop_None] cm_Stream_Throw [OF loop_None]
        aborted_def on_error_def)
qed

lemma parse_loop_append_nil:
  "parse_loop [] (ls @ ms) = parse_loop [] ls @ parse_loop [] ms"
  using parse_loop_append [of "[]" ls ms] parse_loop_acc [of "parse_loop [] ls" ms] by simp

lemma lines_with_inserted:
  assumes nonl: "nl \<notin> set line" and pre: "pre = [] \<or> last pre = nl"
  shows "\<exists>A. split_nl (pre @ line @ nl # post) = A @ line # split_nl post
           \<and> split_nl (pre @ post) = A @ split_nl post"
proof (cases "pre = []")
  case True
  have "split_nl (line @ nl # post) = [line] @ split_nl post"
    using split_nl_nl [of line post] nonl by (simp add: split_nl_single)
  with True show ?thesis by simp
next
  case False
  with pre obtain pre' where p: "pre = pre' @ [nl]"
    by (metis append_butlast_last_id)
  have "split_nl (pre' @ nl # line @ nl # post) = split_nl pre' @ line # split_nl post"
    using split_nl_nl [of pre' "line @ nl # post"] split_nl_nl [of line post] nonl
    by (simp add: split_nl_single)
  moreover have "split_nl (pre' @ nl # post) = split_nl pre' @ split_nl post"
    by (rule split_nl_nl)
  ultimately show ?thesis using p by auto
qed

lemma unlogged_sseParser:
  assumes "unlogged st = unlogged st'"
  shows "unlogged (st\<lparr>sseParser := p\<rparr>) = unlogged (st'\<lparr>sseParser := p\<rparr>)"
proof -
  have "st' = st\<lparr>logged := logged st'\<rparr>"
    by (rule unlogged_eqD [OF assms])
  then have "st'\<lparr>sseParser := p\<rparr> = st\<lparr>logged := logged st', sseParser := p\<rparr>"
    by simp
  then show ?thesis
    by (simp add: unlogged_def)
qed

lemma on_content_log: "logged (on_content env st d) = logged st"
  by (simp add: on_content_def yield_def split: option.splits prod.splits)

lemma on_tool_calls_log: "logged (on_tool_calls st d) = logged st"
  by (simp add: on_tool_calls_def yield_def split: option.splits)

lemma on_finish_reason_log: "logged (on_finish_reason env st r) = logged st"
  by (simp add: on_finish_reason_def yield_def split: option.splits)

lemma process_data_log: "\<exists>l. logged (process_data env st d) = logged st @ l"
  by (simp add: process_data_def Let_def on_content_log on_tool_calls_log on_finish_reason_log
      split: option.splits)

lemma foldl_process_data_log: "\<exists>l. logged (foldl (process_data env) st ds) = logged st @ l"
proof (induction ds arbitrary: st)
  case Nil
  show ?case by simp
next
  case (Cons d ds)
  obtain l1 where "logged (process_data env st d) = logged st @ l1"
    using process_data_log by blast
  moreover obtain l2 where "logged (foldl (process_data env) (process_data env st d) ds)
      = logged (process_data env st d) @ l2"
    using Cons by blast
  ultimately show ?case by simp
qed

lemma flush_log: "logged (flush env st) = logged st"
proof -
  have "logged (foldl (process_final_data env) s ds) = logged s" for s ds
    by (induction ds arbitrary: s)
      (simp_all add: process_final_data_def on_content_log split: option.splits)
  then show ?thesis by (simp add: flush_def Let_def yield_def)
qed

lemma complete_log: "\<exists>l. logged (snd (complete env i st)) = logged st @ l"
  by (simp add: complete_eq flush_log)

lemma on_error_log: "\<exists>l. logged (snd (on_error ab i st e)) = logged st @ l"
  by (simp add: on_error_def)

lemma complete_unlogged:
  assumes "unlogged st = unlogged st'"
  shows "yielded (snd (complete env i st)) = yielded (snd (complete env i st'))"
  using unlogged_yielded [OF flush_unlogged [OF assms, of env]]
    unlogged_assistantText [OF flush_unlogged [OF assms, of env]]
  by (simp add: complete_fields)

lemma on_content_parse: "on_content (env\<lparr>JSON_parse := p'\<rparr>) st d = on_content env st d"
  by (simp add: on_content_def split: option.splits)

lemma process_final_data_content:
  assumes "final_content (env\<lparr>JSON_parse := p'\<rparr>) payload = final_content env payload"
  shows "process_final_data (env\<lparr>JSON_parse := p'\<rparr>) st payload = process_final_data env st payload"
proof -
  have "process_final_data e st payload =
      on_content e st (case final_content e payload of None \<Rightarrow> None
        | Some t \<Rightarrow> Some \<lparr>delta_content = Some t, delta_tool_calls = None\<rparr>)" for e :: "'a env"
    by (cases "JSON_parse e payload")
      (simp_all add: process_final_data_def final_content_def on_content_def
        split: option.splits)
  with assms show ?thesis
    by (simp add: on_content_parse)
qed

lemma foldl_final_content:
  assumes "\<forall>payload \<in> set ds.
      final_content (env\<lparr>JSON_parse := p'\<rparr>) payload = final_content env payload"
  shows "foldl (process_final_data (env\<lparr>JSON_parse := p'\<rparr>)) st ds
       = foldl (process_final_data env) st ds"
  using assms
  by (induction ds arbitrary: st) (simp_all add: process_final_data_content)

section \<open>Claims about malformed frames, counting failures and the final frame\<close>

lemma malformed_line_skipped:
  assumes bad: "JSON_parse env (trim bad) = None"
    and nonl: "nl \<notin> set bad"
    and pre: "pre = [] \<or> last pre = nl"
    and c1: "concat chunks = pre @ js ''data: '' @ bad @ nl # post"
    and c2: "concat chunks' = pre @ post"
  shows "fst (createMessage env sp msgs (Stream chunks ending) None)
       = fst (createMessage env sp msgs (Stream chunks' ending) None)
    \<and> yielded (snd (createMessage env sp msgs (Stream chunks ending) None))
       = yielded (snd (createMessage env sp msgs (Stream chunks' ending) None))
    \<and> (trim bad \<noteq> [] \<and> trim bad \<noteq> done_sentinel \<longrightarrow>
         FailedParse (trim bad)
           \<in> set (logged (snd (createMessage env sp msgs (Stream chunks ending) None))))"
proof -
  let ?st0 = "start env (count_input env sp msgs)"
  let ?i = "case count_input env sp msgs of Inl err \<Rightarrow> 0 | Inr n \<Rightarrow> n"
  let ?line = "js ''data: '' @ bad"
  let ?pd = "process_data env"
  have nl_line: "nl \<notin> set ?line"
    using nonl by (simp add: js_def nl_def)
  obtain A where s1: "split_nl (pre @ ?line @ nl # post) = A @ ?line # split_nl post"
    and s2: "split_nl (pre @ post) = A @ split_nl post"
    using lines_with_inserted [OF nl_line pre, of post] by blast
  let ?B = "butlast (split_nl post)" and ?R = "\<lparr>buffer = last (split_nl post)\<rparr>"
  let ?FA = "parse_loop [] A" and ?FB = "parse_loop [] ?B"
  let ?FL = "parse_line [] ?line"
  have ne: "split_nl post \<noteq> []" by (rule split_nl_nonempty)
  have b1: "butlast (split_nl (concat chunks)) = A @ ?line # ?B"
    and l1: "last (split_nl (concat chunks)) = last (split_nl post)"
    using c1 s1 ne by (simp_all add: butlast_append)
  have b2: "butlast (split_nl (concat chunks')) = A @ ?B"
    and l2: "last (split_nl (concat chunks')) = last (split_nl post)"
    using c2 s2 ne by (simp_all add: butlast_append)
  have f1: "parse_loop [] (A @ ?line # ?B) = ?FA @ ?FL @ ?FB"
    using parse_loop_append_nil [of A "?line # ?B"] parse_loop_append_nil [of "[?line]" ?B]
    by simp
  have f2: "parse_loop [] (A @ ?B) = ?FA @ ?FB"
    by (rule parse_loop_append_nil)
  have FL: "?FL = (if trim bad \<noteq> [] \<and> trim bad \<noteq> done_sentinel then [trim bad] else [])"
    by (simp add: parse_line_def startsWith_def data_prefix_def js_def)
  let ?sA = "foldl ?pd ?st0 ?FA"
  let ?sL = "foldl ?pd ?sA ?FL"
  let ?st1 = "(foldl ?pd ?sL ?FB)\<lparr>sseParser := ?R\<rparr>"
  let ?st2 = "(foldl ?pd ?sA ?FB)\<lparr>sseParser := ?R\<rparr>"
  have e1: "foldl (on_chunk env) ?st0 chunks = ?st1"
    by (simp add: consume_eq start_buffer b1 l1 f1)
  have e2: "foldl (on_chunk env) ?st0 chunks' = ?st2"
    by (simp add: consume_eq start_buffer b2 l2 f2)
  have sL: "?sL = (if trim bad \<noteq> [] \<and> trim bad \<noteq> done_sentinel
      then ?sA\<lparr>logged := logged ?sA @ [FailedParse (trim bad)]\<rparr> else ?sA)"
    using bad by (simp add: FL process_data_def)
  then have "unlogged ?sL = unlogged ?sA" by simp
  then have "unlogged (foldl ?pd ?sL ?FB) = unlogged (foldl ?pd ?sA ?FB)"
    by (rule foldl_unlogged [OF process_data_logged])
  then have u: "unlogged ?st1 = unlogged ?st2"
    by (rule unlogged_sseParser)
  have lg: "trim bad \<noteq> [] \<and> trim bad \<noteq> done_sentinel \<longrightarrow>
      FailedParse (trim bad) \<in> set (logged ?st1)"
  proof
    assume t: "trim bad \<noteq> [] \<and> trim bad \<noteq> done_sentinel"
    obtain l where "logged (foldl ?pd ?sL ?FB) = logged ?sL @ l"
      using foldl_process_data_log by blast
    with t sL show "FailedParse (trim bad) \<in> set (logged ?st1)" by simp
  qed
  show ?thesis
  proof (cases ending)
    case End
    obtain l where "logged (snd (complete env ?i ?st1)) = logged ?st1 @ l"
      using complete_log by blast
    with lg complete_unlogged [OF u, of env ?i] show ?thesis
      unfolding End
      by (simp add: cm_Stream_End [OF loop_None] aborted_def e1 e2 complete_fields)
  next
    case (Throw e)
    obtain l where lo: "logged (snd (on_error None (length chunks) ?st1 e)) = logged ?st1 @ l"
      using on_error_log by blast
    have o2: "on_error None (length chunks') ?st2 e = on_error None (length chunks) ?st2 e"
      by (simp add: on_error_def aborted_def)
    have r1: "createMessage env sp msgs (Stream chunks (Throw e)) None
        = on_error None (length chunks) ?st1 e"
      by (simp add: cm_Stream_Throw [OF loop_None] e1)
    have r2: "createMessage env sp msgs (Stream chunks' (Throw e)) None
        = on_error None (length chunks) ?st2 e"
      by (simp add: cm_Stream_Throw [OF loop_None] e2 o2)
    from lg lo have "trim bad \<noteq> [] \<and> trim bad \<noteq> done_sentinel \<longrightarrow>
        FailedParse (trim bad) \<in> set (logged (snd (on_error None (length chunks) ?st1 e)))"
      by simp
    with on_error_unlogged [OF u, of None "length chunks" e] show ?thesis
      unfolding Throw r1 r2 by blast
  qed
qed

lemma lines_with_tail:
  assumes nonl: "nl \<notin> set tail" and pre: "pre = [] \<or> last pre = nl"
  shows "\<exists>A. split_nl (pre @ tail) = A @ [tail] \<and> split_nl pre = A @ [[]]"
proof (cases "pre = []")
  case True
  with nonl show ?thesis by (simp add: split_nl_single)
next
  case False
  with pre obtain pre' where p: "pre = pre' @ [nl]"
    by (metis append_butlast_last_id)
  have "split_nl (pre' @ nl # tail) = split_nl pre' @ [tail]"
    using split_nl_nl [of pre' tail] nonl by (simp add: split_nl_single)
  moreover have "split_nl (pre' @ nl # []) = split_nl pre' @ [[]]"
    using split_nl_nl [of pre' "[]"] by simp
  ultimately show ?thesis using p by auto
qed

lemma foldl_final_rejected:
  "\<forall>d \<in> set ds. JSON_parse env d = None \<Longrightarrow> foldl (process_final_data env) st ds = st"
  by (induction ds arbitrary: st) (simp_all add: process_final_data_def)

lemma complete_rejected_final:
  assumes "\<forall>d \<in> set (final p). JSON_parse env d = None"
  shows "fst (complete env i (st\<lparr>sseParser := p\<rparr>)) = Completed
    \<and> yielded (snd (complete env i (st\<lparr>sseParser := p\<rparr>)))
        = yielded st @ map transform (matcherFinal env (matcher st))
            @ [Usage i (case countTokens env [assistantText st] of Inl err \<Rightarrow> 0 | Inr n \<Rightarrow> n)]
    \<and> logged (snd (complete env i (st\<lparr>sseParser := p\<rparr>)))
        = logged st @ (case countTokens env [assistantText st] of
             Inl err \<Rightarrow> [FailedCountOutput err] | Inr n \<Rightarrow> [])"
proof -
  have "flush env (st\<lparr>sseParser := p\<rparr>)
      = yield (st\<lparr>sseParser := p\<rparr>) (map transform (matcherFinal env (matcher st)))"
    using assms by (simp add: flush_def Let_def foldl_final_rejected)
  then show ?thesis
    by (simp add: complete_eq yield_def)
qed

lemma malformed_final_skipped:
  assumes rej: "\<forall>d \<in> set (final \<lparr>buffer = tail\<rparr>). JSON_parse env d = None"
    and nonl: "nl \<notin> set tail"
    and pre: "pre = [] \<or> last pre = nl"
    and c1: "concat chunks = pre @ tail"
    and c2: "concat chunks' = pre"
  shows "fst (createMessage env sp msgs (Stream chunks End) None)
       = fst (createMessage env sp msgs (Stream chunks' End) None)
    \<and> yielded (snd (createMessage env sp msgs (Stream chunks End) None))
       = yielded (snd (createMessage env sp msgs (Stream chunks' End) None))
    \<and> logged (snd (createMessage env sp msgs (Stream chunks End) None))
       = logged (snd (createMessage env sp msgs (Stream chunks' End) None))"
proof -
  let ?st0 = "start env (count_input env sp msgs)"
  let ?i = "case count_input env sp msgs of Inl err \<Rightarrow> 0 | Inr n \<Rightarrow> n"
  obtain A where s1: "split_nl (pre @ tail) = A @ [tail]" and s2: "split_nl pre = A @ [[]]"
    using lines_with_tail [OF nonl pre] by blast
  let ?s = "foldl (process_data env) ?st0 (parse_loop [] A)"
  have e1: "foldl (on_chunk env) ?st0 chunks = ?s\<lparr>sseParser := \<lparr>buffer = tail\<rparr>\<rparr>"
    using c1 s1 by (simp add: consume_eq start_buffer)
  have e2: "foldl (on_chunk env) ?st0 chunks' = ?s\<lparr>sseParser := \<lparr>buffer = []\<rparr>\<rparr>"
    using c2 s2 by (simp add: consume_eq start_buffer)
  have rej': "\<forall>d \<in> set (final \<lparr>buffer = []\<rparr>). JSON_parse env d = None"
    by (simp add: final_def trim_def)
  from complete_rejected_final [OF rej, of ?i ?s] complete_rejected_final [OF rej', of ?i ?s]
  show ?thesis
    by (simp add: cm_Stream_End [OF loop_None] aborted_def e1 e2)
qed

text \<open>
  C6 (as the code has it). A payload that \<open>JSON.parse\<close> rejects never ends the run and
  yields nothing. As a complete line \<open>data: <bad>\<close>, put at a line boundary anywhere in
  the stream (so also between two valid frames), it changes neither the events of the run
  nor how it ends, however the two streams are cut into chunks, and it is logged (unless
  it is empty or \<open>[DONE]\<close>, which the demuxer drops). As the unterminated text left in
  the buffer when the stream ends, it changes neither the events nor how the run ends,
  and nothing is logged for it.
\<close>

theorem malformed_payload_skipped:
  "(JSON_parse env (trim bad) = None \<and> nl \<notin> set bad \<and> (pre = [] \<or> last pre = nl)
      \<and> concat chunks = pre @ js ''data: '' @ bad @ nl # post \<and> concat chunks' = pre @ post
    \<longrightarrow>
      fst (createMessage env sp msgs (Stream chunks ending) None)
        = fst (createMessage env sp msgs (Stream chunks' ending) None)
    \<and> yielded (snd (createMessage env sp msgs (Stream chunks ending) None))
        = yielded (snd (createMessage env sp msgs (Stream chunks' ending) None))
    \<and> (trim bad \<noteq> [] \<and> trim bad \<noteq> done_sentinel \<longrightarrow>
         FailedParse (trim bad)
           \<in> set (logged (snd (createMessage env sp msgs (Stream chunks ending) None)))))
   \<and> ((\<forall>d \<in> set (final \<lparr>buffer = tail\<rparr>). JSON_parse env d = None) \<and> nl \<notin> set tail
      \<and> (pre = [] \<or> last pre = nl)
      \<and> concat chunks = pre @ tail \<and> concat chunks' = pre
    \<longrightarrow>
      fst (createMessage env sp msgs (Stream chunks End) None)
        = fst (createMessage env sp msgs (Stream chunks' End) None)
    \<and> yielded (snd (createMessage env sp msgs (Stream chunks End) None))
        = yielded (snd (createMessage env sp msgs (Stream chunks' End) None))
    \<and> logged (snd (createMessage env sp msgs (Stream chunks End) None))
        = logged (snd (createMessage env sp msgs (Stream chunks' End) None)))"
proof (rule conjI; rule impI)
  assume "JSON_parse env (trim bad) = None \<and> nl \<notin> set bad \<and> (pre = [] \<or> last pre = nl)
      \<and> concat chunks = pre @ js ''data: '' @ bad @ nl # post \<and> concat chunks' = pre @ post"
  then show "fst (createMessage env sp msgs (Stream chunks ending) None)
        = fst (createMessage env sp msgs (Stream chunks' ending) None)
    \<and> yielded (snd (createMessage env sp msgs (Stream chunks ending) None))
        = yielded (snd (createMessage env sp msgs (Stream chunks' ending) None))
    \<and> (trim bad \<noteq> [] \<and> trim bad \<noteq> done_sentinel \<longrightarrow>
         FailedParse (trim bad)
           \<in> set (logged (snd (createMessage env sp msgs (Stream chunks ending) None))))"
    using malformed_line_skipped [of env bad pre chunks post chunks' sp msgs ending] by blast
next
  assume "(\<forall>d \<in> set (final \<lparr>buffer = tail\<rparr>). JSON_parse env d = None) \<and> nl \<notin> set tail
      \<and> (pre = [] \<or> last pre = nl)
      \<and> concat chunks = pre @ tail \<and> concat chunks' = pre"
  then show "fst (createMessage env sp msgs (Stream chunks End) None)
        = fst (createMessage env sp msgs (Stream chunks' End) None)
    \<and> yielded (snd (createMessage env sp msgs (Stream chunks End) None))
        = yielded (snd (createMessage env sp msgs (Stream chunks' End) None))
    \<and> logged (snd (createMessage env sp msgs (Stream chunks End) None))
        = logged (snd (createMessage env sp msgs (Stream chunks' End) None))"
    using malformed_final_skipped [of tail env pre chunks chunks' sp msgs] by blast
qed

theorem malformed_payload_skipped_witness:
  "JSON_parse example_env (trim (js ''{oops'')) = None
   \<and> yielded (snd (createMessage example_env (js ''sys'') []
        (Stream [sse hello_payload @ js ''data: {o'', js ''ops'' @ nl # sse think_payload] End) None))
      = [Text (js ''Hello''), Reasoning (js ''<think>hm</think>''), Text (js ''ok''), Usage 3 24]
   \<and> FailedParse (js ''{oops'')
        \<in> set (logged (snd (createMessage example_env (js ''sys'') []
        (Stream [sse hello_payload @ js ''data: {o'', js ''ops'' @ nl # sse think_payload] End) None)))
   \<and> final \<lparr>buffer = js ''data: {oops''\<rparr> = [js ''{oops'']
   \<and> yielded (snd (createMessage example_env (js ''sys'') []
        (Stream [sse hello_payload @ js ''data: {o'', js ''ops''] End) None))
      = [Text (js ''Hello''), Usage 3 5]
   \<and> logged (snd (createMessage example_env (js ''sys'') []
        (Stream [sse hello_payload @ js ''data: {o'', js ''ops''] End) None)) = []"
proof -
  let ?chunks = "[sse hello_payload @ js ''data: {o'', js ''ops'' @ nl # sse think_payload]"
  let ?chunks' = "[sse hello_payload @ sse think_payload]"
  let ?fchunks = "[sse hello_payload @ js ''data: {o'', js ''ops'']"
  have t: "trim (js ''{oops'') = js ''{oops''"
    by code_simp
  have bad: "JSON_parse example_env (trim (js ''{oops'')) = None"
    by code_simp
  have nonl: "nl \<notin> set (js ''{oops'')"
    by code_simp
  have pre: "sse hello_payload = [] \<or> last (sse hello_payload) = nl"
    by (simp add: sse_def)
  have c1: "concat ?chunks = sse hello_payload @ js ''data: '' @ js ''{oops'' @ nl # sse think_payload"
    by (simp add: js_def)
  have c2: "concat ?chunks' = sse hello_payload @ sse think_payload"
    by simp
  have ne: "trim (js ''{oops'') \<noteq> [] \<and> trim (js ''{oops'') \<noteq> done_sentinel"
    by code_simp
  have y: "yielded (snd (createMessage example_env (js ''sys'') [] (Stream ?chunks' End) None))
      = [Text (js ''Hello''), Reasoning (js ''<think>hm</think>''), Text (js ''ok''), Usage 3 24]"
    by code_simp
  have f: "final \<lparr>buffer = js ''data: {oops''\<rparr> = [js ''{oops'']"
    by code_simp
  have bad': "JSON_parse example_env (js ''{oops'') = None"
    by code_simp
  from f bad' have rej: "\<forall>d \<in> set (final \<lparr>buffer = js ''data: {oops''\<rparr>).
      JSON_parse example_env d = None"
    by simp
  have nonl': "nl \<notin> set (js ''data: {oops'')"
    by code_simp
  have c3: "concat ?fchunks = sse hello_payload @ js ''data: {oops''"
    by (simp add: js_def)
  have c4: "concat [sse hello_payload] = sse hello_payload"
    by simp
  have y': "yielded (snd (createMessage example_env (js ''sys'') [] (Stream [sse hello_payload] End) None))
      = [Text (js ''Hello''), Usage 3 5]"
    by code_simp
  have l': "logged (snd (createMessage example_env (js ''sys'') [] (Stream [sse hello_payload] End) None))
      = []"
    by code_simp
  from malformed_payload_skipped [of example_env "js ''{oops''" "sse hello_payload" ?chunks
      "sse think_payload" ?chunks' "js ''sys''" "[]" End]
    bad nonl pre c1 c2 ne
  have a: "yielded (snd (createMessage example_env (js ''sys'') [] (Stream ?chunks End) None))
        = yielded (snd (createMessage example_env (js ''sys'') [] (Stream ?chunks' End) None))
    \<and> FailedParse (trim (js ''{oops''))
        \<in> set (logged (snd (createMessage example_env (js ''sys'') [] (Stream ?chunks End) None)))"
    by blast
  from malformed_payload_skipped [where env = example_env and tail = "js ''data: {oops''"
      and pre = "sse hello_payload" and chunks = ?fchunks and chunks' = "[sse hello_payload]"
      and sp = "js ''sys''" and msgs = "[]"]
    rej nonl' pre c3 c4
  have b: "yielded (snd (createMessage example_env (js ''sys'') [] (Stream ?fchunks End) None))
        = yielded (snd (createMessage example_env (js ''sys'') [] (Stream [sse hello_payload] End) None))
    \<and> logged (snd (createMessage example_env (js ''sys'') [] (Stream ?fchunks End) None))
        = logged (snd (createMessage example_env (js ''sys'') [] (Stream [sse hello_payload] End) None))"
    by blast
  from a b t y y' l' bad f show ?thesis by simp
qed

text \<open>
  C6 as stated fails for the payload left in the buffer when the stream ends: \<open>{oops\<close>
  is a frame payload, \<open>JSON.parse\<close> rejects it, the run completes, and nothing is
  logged.
\<close>

theorem malformed_final_not_logged_counterexample:
  "final \<lparr>buffer = js ''data: {oops''\<rparr> = [js ''{oops'']
   \<and> JSON_parse example_env (js ''{oops'') = None
   \<and> createMessage example_env (js ''sys'') []
       (Stream [sse hello_payload @ js ''data: {oops''] End) None
     = (Completed, \<lparr>sseParser = \<lparr>buffer = js ''data: {oops''\<rparr>,
          matcher = new_XmlMatcher (js ''think''), assistantText = js ''Hello'',
          yielded = [Text (js ''Hello''), Usage 3 5], logged = []\<rparr>)"
  by code_simp

text \<open>
  C7. The token counter never steers a run: with any other counter, in particular one
  that throws, the run ends in the same way and yields the same events apart from the
  numbers in the usage event. A completed run ends with the usage event, which reports
  zero input tokens when counting the prompt throws and zero output tokens when counting
  the assistant text throws.
\<close>

theorem counting_failures_absorbed:
  "fst (createMessage (env\<lparr>countTokens := c'\<rparr>) sp msgs resp ab)
     = fst (createMessage env sp msgs resp ab)
   \<and> filter (\<lambda>e. \<not> is_usage e)
        (yielded (snd (createMessage (env\<lparr>countTokens := c'\<rparr>) sp msgs resp ab)))
     = filter (\<lambda>e. \<not> is_usage e) (yielded (snd (createMessage env sp msgs resp ab)))
   \<and> (fst (createMessage env sp msgs resp ab) = Completed \<longrightarrow>
        last (yielded (snd (createMessage env sp msgs resp ab)))
          = Usage (case count_input env sp msgs of Inl err \<Rightarrow> 0 | Inr n \<Rightarrow> n)
              (case countTokens env [assistantText (snd (createMessage env sp msgs resp ab))] of
                 Inl err \<Rightarrow> 0 | Inr n \<Rightarrow> n))"
proof -
  let ?env' = "env\<lparr>countTokens := c'\<rparr>"
  let ?st0 = "start env (count_input env sp msgs)"
  let ?st0' = "start ?env' (count_input ?env' sp msgs)"
  let ?i = "case count_input env sp msgs of Inl err \<Rightarrow> 0 | Inr n \<Rightarrow> n"
  let ?i' = "case count_input ?env' sp msgs of Inl err \<Rightarrow> 0 | Inr n \<Rightarrow> n"
  have u0: "unlogged ?st0' = unlogged ?st0"
    by (rule start_unlogged)
  show ?thesis
  proof (cases resp)
    case (RequestFailed e)
    from on_error_unlogged [OF u0, of ab 0 e] show ?thesis
      unfolding RequestFailed cm_RequestFailed
      by (simp add: on_error_not_completed)
  next
    case NoStream
    from on_error_unlogged [OF u0, of ab 0 plain_Error] show ?thesis
      unfolding NoStream cm_NoStream
      by (simp add: on_error_not_completed)
  next
    case (Stream chunks ending)
    obtain b st where l: "stream_loop env ab 0 ?st0 chunks = (b, st)"
      by (cases "stream_loop env ab 0 ?st0 chunks") auto
    obtain b' st' where l': "stream_loop ?env' ab 0 ?st0' chunks = (b', st')"
      by (cases "stream_loop ?env' ab 0 ?st0' chunks") auto
    from loop_unlogged [OF u0, of env ab 0 chunks] l l'
    have bb: "b' = b" and u: "unlogged st' = unlogged st"
      by (simp_all add: stream_loop_count)
    have y: "yielded st' = yielded st"
      by (rule unlogged_yielded [OF u])
    show ?thesis
    proof (cases b)
      case True
      with l l' bb y show ?thesis
        unfolding Stream by (simp add: cm_Stream_break)
    next
      case False
      show ?thesis
      proof (cases ending)
        case (Throw e)
        from False bb l l' on_error_unlogged [OF u, of ab "length chunks" e] show ?thesis
          unfolding Stream Throw
          by (simp add: cm_Stream_Throw on_error_not_completed)
      next
        case End
        have fu: "unlogged (flush env st') = unlogged (flush env st)"
          by (rule flush_unlogged [OF u])
        obtain evs where nf: "yielded (flush env st) = yielded st @ evs"
          "\<not> list_ex is_usage evs"
          using flush_yielded [of env st] by blast
        from False bb l l' y unlogged_yielded [OF fu] show ?thesis
          unfolding Stream End
          by (simp add: cm_Stream_End complete_fields flush_count)
      qed
    qed
  qed
qed

theorem counting_failures_absorbed_witness:
  "fst (createMessage (example_env\<lparr>countTokens := \<lambda>blocks. Inl plain_Error\<rparr>) (js ''sys'') []
      (Stream [sse hello_payload] End) None) = Completed
   \<and> last (yielded (snd (createMessage (example_env\<lparr>countTokens := \<lambda>blocks. Inl plain_Error\<rparr>)
      (js ''sys'') [] (Stream [sse hello_payload] End) None))) = Usage 0 0
   \<and> createMessage (example_env\<lparr>countTokens := \<lambda>blocks. Inl plain_Error\<rparr>) (js ''sys'') []
      (Stream [sse hello_payload] End) None
     = (Completed, \<lparr>sseParser = \<lparr>buffer = []\<rparr>, matcher = new_XmlMatcher (js ''think''),
          assistantText = js ''Hello'', yielded = [Text (js ''Hello''), Usage 0 0],
          logged = [FailedCountInput plain_Error, FailedCountOutput plain_Error]\<rparr>)"
proof -
  let ?env = "example_env\<lparr>countTokens := \<lambda>blocks. Inl plain_Error\<rparr>"
  have c: "fst (createMessage example_env (js ''sys'') [] (Stream [sse hello_payload] End) None)
      = Completed"
    by code_simp
  have v: "createMessage ?env (js ''sys'') [] (Stream [sse hello_payload] End) None
     = (Completed, \<lparr>sseParser = \<lparr>buffer = []\<rparr>, matcher = new_XmlMatcher (js ''think''),
          assistantText = js ''Hello'', yielded = [Text (js ''Hello''), Usage 0 0],
          logged = [FailedCountInput plain_Error, FailedCountOutput plain_Error]\<rparr>)"
    by code_simp
  from counting_failures_absorbed [where env = example_env and c' = "\<lambda>blocks. Inl plain_Error"
      and sp = "js ''sys''" and msgs = "[]" and resp = "Stream [sse hello_payload] End"
      and ab = None] c
  have s: "fst (createMessage ?env (js ''sys'') [] (Stream [sse hello_payload] End) None)
      = Completed"
    by simp
  from counting_failures_absorbed [where env = ?env and c' = "countTokens example_env"
      and sp = "js ''sys''" and msgs = "[]" and resp = "Stream [sse hello_payload] End"
      and ab = None] s
  have "last (yielded (snd (createMessage ?env (js ''sys'') []
      (Stream [sse hello_payload] End) None))) = Usage 0 0"
    by (simp add: count_input_def)
  with s v show ?thesis by simp
qed

text \<open>
  C10. After a stream that ends normally without the abort signal, the events that
  follow those of the streaming phase are text and reasoning events and the usage event:
  no tool call event. The flush of the final buffer reads nothing of a payload but its
  content delta: a parser that agrees on the content of the final frame gives the same
  completion, whatever tool calls or finish reason the frame carries.
\<close>

theorem final_frame_text_only:
  "(\<not> aborted ab (length chunks) \<longrightarrow>
      (\<exists>evs n. yielded (snd (createMessage env sp msgs (Stream chunks End) ab))
          = yielded (foldl (on_chunk env) (start env (count_input env sp msgs)) chunks)
              @ evs @ [Usage (case count_input env sp msgs of Inl err \<Rightarrow> 0 | Inr n \<Rightarrow> n) n]
        \<and> \<not> list_ex is_tool_event evs))
   \<and> ((\<forall>payload \<in> set (final (sseParser st)).
          final_content (env\<lparr>JSON_parse := p'\<rparr>) payload = final_content env payload)
        \<longrightarrow> complete (env\<lparr>JSON_parse := p'\<rparr>) i st = complete env i st)"
proof (intro conjI impI)
  let ?st0 = "start env (count_input env sp msgs)"
  let ?i = "case count_input env sp msgs of Inl err \<Rightarrow> 0 | Inr n \<Rightarrow> n"
  assume na: "\<not> aborted ab (length chunks)"
  then have l: "stream_loop env ab 0 ?st0 chunks = (False, foldl (on_chunk env) ?st0 chunks)"
    using loop_not_aborted [of ab 0 chunks env ?st0] by simp
  obtain evs n st' where "complete env ?i (foldl (on_chunk env) ?st0 chunks) = (Completed, st')"
    and "yielded st' = yielded (foldl (on_chunk env) ?st0 chunks) @ evs @ [Usage ?i n]"
    and "\<not> list_ex is_tool_event evs"
    using complete_yielded [of env ?i "foldl (on_chunk env) ?st0 chunks"] by blast
  with na show "\<exists>evs n. yielded (snd (createMessage env sp msgs (Stream chunks End) ab))
          = yielded (foldl (on_chunk env) ?st0 chunks) @ evs @ [Usage ?i n]
        \<and> \<not> list_ex is_tool_event evs"
    by (auto simp: cm_Stream_End [OF l])
next
  assume "\<forall>payload \<in> set (final (sseParser st)).
      final_content (env\<lparr>JSON_parse := p'\<rparr>) payload = final_content env payload"
  then have "flush (env\<lparr>JSON_parse := p'\<rparr>) st = flush env st"
    by (simp add: flush_def foldl_final_content)
  then show "complete (env\<lparr>JSON_parse := p'\<rparr>) i st = complete env i st"
    by (simp add: complete_def)
qed

theorem final_frame_text_only_witness:
  "yielded (snd (createMessage example_env (js ''sys'') []
       (Stream [js ''data: '' @ tool_payload] End) None))
     = [Text (js ''A''), Usage 3 1]
   \<and> yielded (snd (createMessage example_env (js ''sys'') []
       (Stream [js ''data: '' @ tool_payload @ [nl]] End) None))
     = [Text (js ''A''), ToolCallPartial 0 (Some (js ''a'')) (Some (js ''x'')) None,
        ToolCallEnd 0, Usage 3 1]
   \<and> complete (example_env\<lparr>JSON_parse := content_only_parse\<rparr>) 3
        ((start example_env (Inr 3))\<lparr>sseParser := \<lparr>buffer = js ''data: '' @ tool_payload\<rparr>\<rparr>)
     = complete example_env 3
        ((start example_env (Inr 3))\<lparr>sseParser := \<lparr>buffer = js ''data: '' @ tool_payload\<rparr>\<rparr>)"
proof -
  let ?st = "(start example_env (Inr 3))\<lparr>sseParser := \<lparr>buffer = js ''data: '' @ tool_payload\<rparr>\<rparr>"
  have a: "yielded (snd (createMessage example_env (js ''sys'') []
       (Stream [js ''data: '' @ tool_payload] End) None))
     = [Text (js ''A''), Usage 3 1]"
    by code_simp
  have b: "yielded (snd (createMessage example_env (js ''sys'') []
       (Stream [js ''data: '' @ tool_payload @ [nl]] End) None))
     = [Text (js ''A''), ToolCallPartial 0 (Some (js ''a'')) (Some (js ''x'')) None,
        ToolCallEnd 0, Usage 3 1]"
    by code_simp
  have f: "final (sseParser ?st) = [tool_payload]"
    by code_simp
  have c: "final_content (example_env\<lparr>JSON_parse := content_only_parse\<rparr>) tool_payload
      = final_content example_env tool_payload"
    by code_simp
  from f c have h: "\<forall>payload \<in> set (final (sseParser ?st)).
      final_content (example_env\<lparr>JSON_parse := content_only_parse\<rparr>) payload
        = final_content example_env payload"
    by simp
  from final_frame_text_only [of None "[]" example_env "js ''sys''" "[]" ?st content_only_parse 3] h
  have "complete (example_env\<lparr>JSON_parse := content_only_parse\<rparr>) 3 ?st
      = complete example_env 3 ?st"
    by blast
  with a b show ?thesis by simp
qed

section \<open>Claims about failures\<close>

text \<open>
  C8 (as the code has it). When the request or the stream throws and no cancellation was
  requested, the run fails unless the error is a cancellation error or has the code
  \<open>ERR_STREAM_DESTROYED\<close>: these two end the run silently, as a stop. A response
  without a body is a failure.
\<close>

theorem abnormal_end_without_cancel:
  "fst (createMessage env sp msgs (Stream chunks (Throw e)) None) = error_status e
   \<and> fst (createMessage env sp msgs (RequestFailed e) None) = error_status e
   \<and> fst (createMessage env sp msgs NoStream None) = Failed CheckLogs"
  by (simp add: cm_RequestFailed cm_NoStream cm_Stream_Throw [OF loop_None]
      on_error_def aborted_def error_status_def plain_Error_def js_def)

theorem abnormal_end_without_cancel_witness:
  "fst (createMessage example_env (js ''sys'') []
      (Stream [sse hello_payload] (Throw \<lparr>isCancel = False, name = js ''Error'',
         code = Some (js ''ECONNRESET'')\<rparr>)) None) = Failed CheckLogs
   \<and> fst (createMessage example_env (js ''sys'') []
      (RequestFailed \<lparr>isCancel = False, name = js ''AxiosError'',
         code = Some (js ''ECONNABORTED'')\<rparr>) None) = Failed TimedOut"
  using abnormal_end_without_cancel [of example_env "js ''sys''" "[]" "[sse hello_payload]"
      "\<lparr>isCancel = False, name = js ''Error'', code = Some (js ''ECONNRESET'')\<rparr>"]
    abnormal_end_without_cancel [of example_env "js ''sys''" "[]" "[]"
      "\<lparr>isCancel = False, name = js ''AxiosError'', code = Some (js ''ECONNABORTED'')\<rparr>"]
  by (simp add: error_status_def js_def)

text \<open>
  C8 as stated fails: the stream is destroyed under the reader after one chunk, the abort
  signal is never set, and the run ends as a silent stop with the events so far, not as
  a failure.
\<close>

theorem stream_destroyed_counterexample:
  "createMessage example_env (js ''sys'') [] (Stream [sse hello_payload] (Throw stream_destroyed)) None
     = (Stopped, \<lparr>sseParser = \<lparr>buffer = []\<rparr>, matcher = new_XmlMatcher (js ''think''),
          assistantText = js ''Hello'', yielded = [Text (js ''Hello'')], logged = []\<rparr>)"
  by code_simp

section \<open>Claims about the tag classifier\<close>

lemma event_text_flat:
  "concat (map event_text (map transform chunks)) = map snd (flat chunks)"
  by (induction chunks) (auto simp: flat_def transform_def comp_def)

lemma event_kinds_flat:
  "concat (map event_kinds (map transform chunks)) = map fst (flat chunks)"
  by (induction chunks) (auto simp: flat_def transform_def comp_def map_replicate_const)

lemma good_think: "good (new_XmlMatcher (js ''think''))"
  by (simp add: good_def new_XmlMatcher_def tag_def open_tag_def js_def lt_def)

text \<open>
  C2. For every sequence of text deltas, the events that the handler's transform makes of
  the results of \<open>update\<close> on each delta and then of \<open>final\<close>, taken in order, spell
  the text of the deltas exactly; and each character has the kind reasoning exactly when
  it lies in a reasoning span of the whole text (from an opening \<open><think>\<close> to the next
  \<open></think>\<close>), however the text is cut into deltas.
\<close>

theorem classifier_lossless_and_kinds:
  "concat (map event_text (map transform (xm_run (new_XmlMatcher (js ''think'')) deltas)))
     = concat deltas
   \<and> concat (map event_kinds (map transform (xm_run (new_XmlMatcher (js ''think'')) deltas)))
     = reasoning_mask (js ''think'') False (concat deltas)"
proof -
  have "flat (xm_run (new_XmlMatcher (js ''think'')) deltas)
      = zip (reasoning_mask (js ''think'') False (concat deltas)) (concat deltas)"
    using xm_run_flat [OF good_think, of deltas]
    by (simp add: rest_out_def new_XmlMatcher_def)
  then show ?thesis
    using event_text_flat [of "xm_run (new_XmlMatcher (js ''think'')) deltas"]
      event_kinds_flat [of "xm_run (new_XmlMatcher (js ''think'')) deltas"]
    by (simp only: length_mask map_snd_zip map_fst_zip simp_thms)
qed

theorem classifier_lossless_and_kinds_witness:
  "map transform (xm_run (new_XmlMatcher (js ''think''))
       [js ''a<th'', js ''ink>b</th'', js ''ink>c<think''])
     = [Text (js ''a''), Reasoning (js ''<think>b''), Reasoning (js ''</think>''),
        Text (js ''c''), Text (js ''<think'')]
   \<and> concat (map event_text (map transform (xm_run (new_XmlMatcher (js ''think''))
       [js ''a<th'', js ''ink>b</th'', js ''ink>c<think''])))
     = js ''a<think>b</think>c<think''"
proof -
  have v: "map transform (xm_run (new_XmlMatcher (js ''think''))
       [js ''a<th'', js ''ink>b</th'', js ''ink>c<think''])
     = [Text (js ''a''), Reasoning (js ''<think>b''), Reasoning (js ''</think>''),
        Text (js ''c''), Text (js ''<think'')]"
    by code_simp
  have c: "concat [js ''a<th'', js ''ink>b</th'', js ''ink>c<think''] = js ''a<think>b</think>c<think''"
    by (simp add: js_def)
  from classifier_lossless_and_kinds [of "[js ''a<th'', js ''ink>b</th'', js ''ink>c<think'']"] c
  have "concat (map event_text (map transform (xm_run (new_XmlMatcher (js ''think''))
       [js ''a<th'', js ''ink>b</th'', js ''ink>c<think''])))
     = js ''a<think>b</think>c<think''"
    by simp
  with v show ?thesis by simp
qed

end
